theory Spec2Isabelle
  imports Complex_Main "HOL-Library.Sublist" "HOL-Library.Char_ord" "HOL-Library.List_Lexorder"
begin

section \<open>JavaScript strings\<close>

text \<open>
  The viewer (\<open>src/app/page.tsx\<close>) works on JavaScript strings, sequences of UTF-16 code
  units. The model takes the code units below 256 (the Latin-1 range), which \<^typ>\<open>char\<close>
  represents one for one, so a JavaScript string is a \<^typ>\<open>string\<close> and \<open>length\<close> counts what
  \<open>.length\<close> counts. Inside that range the built-ins used by the page are as follows.

  Line numbers refer to \<open>src/app/page.tsx\<close>. The earlier copy of the page that lies
  beside it has the same \<open>parseMessages\<close>, \<open>getAttachmentType\<close>, \<open>performSearch\<close>,
  \<open>nextSearchResult\<close> and \<open>prevSearchResult\<close>, and a \<open>processZipFile\<close> without thumbnails
  that revokes and extracts in the same order.
\<close>

text \<open>
  \<open>LineTerminator\<close> of ECMAScript: LF and CR (U+2028 and U+2029 lie outside the range).
  The regular-expression atom \<open>.\<close> matches every code unit that is not one of them.
\<close>

definition isLineTerminator :: "char \<Rightarrow> bool" where
  "isLineTerminator c = (c = CHR 0x0A \<or> c = CHR 0x0D)"

text \<open>
  \<open>WhiteSpace\<close> and \<open>LineTerminator\<close> together: TAB, LF, VT, FF, CR, SP and NBSP. This is the
  set that \<open>\s\<close> matches and that \<open>String.prototype.trim\<close> strips.
\<close>

definition isWhiteSpace :: "char \<Rightarrow> bool" where
  "isWhiteSpace c =
     (c = CHR 0x09 \<or> c = CHR 0x0A \<or> c = CHR 0x0B \<or> c = CHR 0x0C \<or> c = CHR 0x0D
      \<or> c = CHR 0x20 \<or> c = CHR 0xA0)"

definition trim :: "string \<Rightarrow> string" where
  "trim s = rev (dropWhile isWhiteSpace (rev (dropWhile isWhiteSpace s)))"

text \<open>
  \<open>toLowerCase\<close>: within Latin-1 the only code units with a lower-case mapping are
  \<open>A\<close>..\<open>Z\<close> and U+00C0..U+00DE without the multiplication sign U+00D7; each maps to the
  code unit 32 above it, whatever stands around it, so the string is mapped unit by unit.
  (Beyond Latin-1 that is no longer so: the lower-case form of a capital sigma depends on
  its position in the word, and that of U+0130 is two code units long.)
\<close>

definition lowerChar :: "char \<Rightarrow> char" where
  "lowerChar c =
     (let n = (of_char c :: nat) in
      if (65 \<le> n \<and> n \<le> 90) \<or> (192 \<le> n \<and> n \<le> 222 \<and> n \<noteq> 215)
      then char_of (n + 32) else c)"

definition toLowerCase :: "string \<Rightarrow> string" where
  "toLowerCase s = map lowerChar s"

text \<open>
  \<open>Canonicalize\<close> of a case-insensitive regular expression without the \<open>u\<close> flag: the
  upper-case form of the code unit when that is again one code unit, except that a code unit
  from 128 on is never mapped below 128. Within Latin-1 that sends \<open>a\<close>..\<open>z\<close> and
  U+00E0..U+00FE (without the division sign U+00F7) 32 down; U+00B5 and U+00FF have their
  upper-case forms outside the range and U+00DF has a two-unit one, so they stay distinct from
  every other canonical form, which is all that matching compares.
\<close>

definition canonicalize :: "char \<Rightarrow> char" where
  "canonicalize c =
     (let n = (of_char c :: nat) in
      if (97 \<le> n \<and> n \<le> 122) \<or> (224 \<le> n \<and> n \<le> 254 \<and> n \<noteq> 247)
      then char_of (n - 32) else c)"

text \<open>\<open>s.substring(a, b)\<close>: both indices are clamped to the length and swapped if needed.\<close>

definition substring :: "string \<Rightarrow> nat \<Rightarrow> nat \<Rightarrow> string" where
  "substring s a b =
     (let a' = min a (length s); b' = min b (length s);
          lo = min a' b'; hi = max a' b'
      in take (hi - lo) (drop lo s))"

text \<open>\<open>s.substring(a)\<close> with the end index left out.\<close>

definition substringFrom :: "string \<Rightarrow> nat \<Rightarrow> string" where
  "substringFrom s a = substring s a (length s)"

text \<open>\<open>s.includes(t)\<close>: \<open>t\<close> occurs in \<open>s\<close> as a contiguous run of code units.\<close>

fun js_includes :: "string \<Rightarrow> string \<Rightarrow> bool" where
  "js_includes [] t = (t = [])"
| "js_includes (x # xs) t = (prefix t (x # xs) \<or> js_includes xs t)"

text \<open>
  \<open>s.replace(pat, rep)\<close> with a string pattern: the first occurrence of \<open>pat\<close> is replaced,
  and \<open>s\<close> is returned as it is when there is none. (The page only passes \<open>rep = ''\<close>, so the
  \<open>$\<close> patterns of a replacement string do not arise.)
\<close>

fun replace :: "string \<Rightarrow> string \<Rightarrow> string \<Rightarrow> string" where
  "replace [] pat rep = (if pat = [] then rep else [])"
| "replace (x # xs) pat rep =
     (if prefix pat (x # xs) then rep @ drop (length pat) (x # xs)
      else x # replace xs pat rep)"

text \<open>\<open>s.split('.')\<close>: the pieces between the dots; never an empty array.\<close>

fun split :: "string \<Rightarrow> char \<Rightarrow> string list" where
  "split [] sep = [[]]"
| "split (x # xs) sep =
     (if x = sep then [] # split xs sep
      else (case split xs sep of p # ps \<Rightarrow> (x # p) # ps | [] \<Rightarrow> [[x]]))"

section \<open>Regular expressions\<close>

text \<open>
  The regular expressions of the page are sequences of single-character atoms under the
  quantifiers \<open>*\<close>, \<open>+\<close>, \<open>*?\<close> and \<open>+?\<close>, with capture groups, the anchor \<open>$\<close> and one
  top-level alternation. They are kept as syntax and run by a backtracking matcher that tries
  alternatives in the order ECMAScript prescribes: a greedy quantifier first takes one more
  character, a lazy one first tries the rest of the pattern.
\<close>

datatype atom =
    Lit char    \<comment> \<open>a literal character\<close>
  | AnyChar     \<comment> \<open>\<open>.\<close>\<close>
  | Space       \<comment> \<open>\<open>\s\<close>\<close>

datatype item =
    One atom         \<comment> \<open>\<open>a\<close>\<close>
  | Star atom        \<comment> \<open>\<open>a*\<close>\<close>
  | Plus atom        \<comment> \<open>\<open>a+\<close>\<close>
  | StarLazy atom    \<comment> \<open>\<open>a*?\<close>\<close>
  | PlusLazy atom    \<comment> \<open>\<open>a+?\<close>\<close>
  | EndOfInput       \<comment> \<open>\<open>$\<close> (without the \<open>m\<close> flag)\<close>
  | GroupOpen nat    \<comment> \<open>\<open>(\<close> of capture group \<open>n\<close>\<close>
  | GroupClose nat   \<comment> \<open>\<open>)\<close> of capture group \<open>n\<close>\<close>

text \<open>A regular expression: its alternatives, left to right, and the \<open>i\<close> flag.\<close>

record regex =
  alternatives :: "item list list"
  ignoreCase :: bool

text \<open>
  The captures of a match in progress: for each group the input that was left when the group
  was opened, and the text of each group that has been closed.
\<close>

record captures =
  opened :: "nat \<rightharpoonup> string"
  closed :: "nat \<rightharpoonup> string"

definition noCaptures :: captures where
  "noCaptures = \<lparr>opened = Map.empty, closed = Map.empty\<rparr>"

fun atomMatches :: "bool \<Rightarrow> atom \<Rightarrow> char \<Rightarrow> bool" where
  "atomMatches ic (Lit c) x = (if ic then canonicalize x = canonicalize c else x = c)"
| "atomMatches ic AnyChar x = (\<not> isLineTerminator x)"
| "atomMatches ic Space x = isWhiteSpace x"

text \<open>
  \<open>matchItems ic items s caps\<close> matches the items against a prefix of the input \<open>s\<close> and
  returns the captures and the input left over, or \<open>None\<close> when every way of matching fails.
\<close>

fun matchItems :: "bool \<Rightarrow> item list \<Rightarrow> string \<Rightarrow> captures \<Rightarrow> (captures \<times> string) option" where
  "matchItems ic [] s caps = Some (caps, s)"
| "matchItems ic (One a # items) [] caps = None"
| "matchItems ic (One a # items) (x # xs) caps =
     (if atomMatches ic a x then matchItems ic items xs caps else None)"
| "matchItems ic (Star a # items) [] caps = matchItems ic items [] caps"
| "matchItems ic (Star a # items) (x # xs) caps =
     (if atomMatches ic a x
      then (case matchItems ic (Star a # items) xs caps of
              Some r \<Rightarrow> Some r
            | None \<Rightarrow> matchItems ic items (x # xs) caps)
      else matchItems ic items (x # xs) caps)"
| "matchItems ic (Plus a # items) [] caps = None"
| "matchItems ic (Plus a # items) (x # xs) caps =
     (if atomMatches ic a x then matchItems ic (Star a # items) xs caps else None)"
| "matchItems ic (StarLazy a # items) [] caps = matchItems ic items [] caps"
| "matchItems ic (StarLazy a # items) (x # xs) caps =
     (case matchItems ic items (x # xs) caps of
        Some r \<Rightarrow> Some r
      | None \<Rightarrow> (if atomMatches ic a x then matchItems ic (StarLazy a # items) xs caps
                 else None))"
| "matchItems ic (PlusLazy a # items) [] caps = None"
| "matchItems ic (PlusLazy a # items) (x # xs) caps =
     (if atomMatches ic a x then matchItems ic (StarLazy a # items) xs caps else None)"
| "matchItems ic (EndOfInput # items) [] caps = matchItems ic items [] caps"
| "matchItems ic (EndOfInput # items) (x # xs) caps = None"
| "matchItems ic (GroupOpen n # items) s caps =
     matchItems ic items s (caps\<lparr>opened := (opened caps)(n \<mapsto> s)\<rparr>)"
| "matchItems ic (GroupClose n # items) s caps =
     (case opened caps n of
        None \<Rightarrow> None
      | Some s0 \<Rightarrow>
          matchItems ic items s
            (caps\<lparr>closed := (closed caps)(n \<mapsto> take (length s0 - length s) s0)\<rparr>))"

text \<open>The alternatives of a pattern are tried left to right at the same position.\<close>

fun matchAlternatives :: "bool \<Rightarrow> item list list \<Rightarrow> string \<Rightarrow> (captures \<times> string) option" where
  "matchAlternatives ic [] s = None"
| "matchAlternatives ic (alt # alts) s =
     (case matchItems ic alt s noCaptures of
        Some r \<Rightarrow> Some r
      | None \<Rightarrow> matchAlternatives ic alts s)"

text \<open>
  The search for the leftmost match: the pattern is tried at the start of the input, then one
  character further, up to and including the empty rest. The result counts the characters
  skipped.
\<close>

fun searchFrom :: "regex \<Rightarrow> string \<Rightarrow> (nat \<times> captures \<times> string) option" where
  "searchFrom re [] =
     (case matchAlternatives (ignoreCase re) (alternatives re) [] of
        Some (caps, rest) \<Rightarrow> Some (0, caps, rest)
      | None \<Rightarrow> None)"
| "searchFrom re (x # xs) =
     (case matchAlternatives (ignoreCase re) (alternatives re) (x # xs) of
        Some (caps, rest) \<Rightarrow> Some (0, caps, rest)
      | None \<Rightarrow>
          (case searchFrom re xs of
             Some (k, caps, rest) \<Rightarrow> Some (Suc k, caps, rest)
           | None \<Rightarrow> None))"

text \<open>
  A match result: \<open>match.index\<close>, the index just behind the match (the \<open>lastIndex\<close> that a
  global regular expression is left with), \<open>match[0]\<close>, and the capture groups \<open>match[n]\<close>,
  \<open>None\<close> for \<open>undefined\<close>.
\<close>

record rmatch =
  index :: nat
  endIndex :: nat
  matched :: string
  groups :: "nat \<rightharpoonup> string"

text \<open>
  \<open>re.exec(text)\<close> for a regular expression with the \<open>g\<close> flag whose \<open>lastIndex\<close> is
  \<open>lastIndex\<close>: the search starts there, and fails outright when \<open>lastIndex\<close> is behind the
  end of the text.
\<close>

definition exec :: "regex \<Rightarrow> string \<Rightarrow> nat \<Rightarrow> rmatch option" where
  "exec re text lastIndex =
     (if lastIndex > length text then None
      else (case searchFrom re (drop lastIndex text) of
              None \<Rightarrow> None
            | Some (k, caps, rest) \<Rightarrow>
                Some \<lparr>index = lastIndex + k,
                      endIndex = length text - length rest,
                      matched = substring text (lastIndex + k) (length text - length rest),
                      groups = closed caps\<rparr>))"

text \<open>\<open>s.match(re)\<close> for a regular expression without the \<open>g\<close> flag: the first match.\<close>

definition matchFirst :: "string \<Rightarrow> regex \<Rightarrow> rmatch option" where
  "matchFirst s re = exec re s 0"

text \<open>
  \<open>s.replace(re, rep)\<close> for a regular expression without the \<open>g\<close> flag: the first match is
  replaced. (Again the page only passes \<open>rep = ''\<close>.)
\<close>

definition replaceRegex :: "string \<Rightarrow> regex \<Rightarrow> string \<Rightarrow> string" where
  "replaceRegex s re rep =
     (case matchFirst s re of
        None \<Rightarrow> s
      | Some m \<Rightarrow> take (index m) s @ rep @ drop (endIndex m) s)"

section \<open>Messages and attachments\<close>

datatype AttachmentType = image | video | document | sticker | audio

text \<open>
  A blob URL is an opaque handle that \<open>URL.createObjectURL\<close> hands out; the model numbers
  them.
\<close>

type_synonym url = nat

record Attachment =
  name :: string
  type :: AttachmentType
  blobUrl :: url
  size :: nat
  thumbnailUrl :: "url option"

record Message =
  date :: string
  time :: string
  sender :: string
  "text" :: string
  attachment :: "Attachment option"

section \<open>The transcript parser\<close>

definition literal :: "string \<Rightarrow> item list" where
  "literal s = map (\<lambda>c. One (Lit c)) s"

text \<open>\<^verbatim>\<open>/\[(.*?),\s*(.*?)\]\s*(.*?):\s*/g\<close>\<close>

definition messageRegex :: regex where
  "messageRegex =
     \<lparr>alternatives =
        [[One (Lit CHR ''[''), GroupOpen 1, StarLazy AnyChar, GroupClose 1,
          One (Lit CHR '',''), Star Space, GroupOpen 2, StarLazy AnyChar, GroupClose 2,
          One (Lit CHR '']''), Star Space, GroupOpen 3, StarLazy AnyChar, GroupClose 3,
          One (Lit CHR '':''), Star Space]],
      ignoreCase = False\<rparr>"

text \<open>\<^verbatim>\<open>/<attached: (.+?)>|<Media omitted>/i\<close>\<close>

definition attachmentRegex :: regex where
  "attachmentRegex =
     \<lparr>alternatives =
        [literal ''<attached: '' @ [GroupOpen 1, PlusLazy AnyChar, GroupClose 1, One (Lit CHR ''>'')],
         literal ''<Media omitted>''],
      ignoreCase = True\<rparr>"

text \<open>
  The block that \<open>parseMessages\<close> runs on the message before the header just found, and
  once more on the last message (lines 317 to 331 and 346 to 360): the trimmed body
  \<open>msgText\<close> is searched for an attachment marker; when the marker names a file of the
  attachment map, the message gets that attachment and the body without the marker, trimmed
  again; in every other case the message gets \<open>msgText\<close> as it is.
\<close>

definition assignBody :: "Message \<Rightarrow> string \<Rightarrow> (string \<rightharpoonup> Attachment) \<Rightarrow> Message" where
  "assignBody msg msgText attachmentMap =
     (case matchFirst msgText attachmentRegex of
        Some attachmentMatch \<Rightarrow>
          (case groups attachmentMatch 1 of
             Some fileName \<Rightarrow>
               (if fileName \<noteq> [] \<and> attachmentMap fileName \<noteq> None
                then msg\<lparr>attachment := attachmentMap fileName,
                         text := trim (replace msgText (matched attachmentMatch) [])\<rparr>
                else msg\<lparr>text := msgText\<rparr>)
           | None \<Rightarrow> msg\<lparr>text := msgText\<rparr>)
      | None \<Rightarrow> msg\<lparr>text := msgText\<rparr>)"

text \<open>\<open>match[n]\<close> of a group that took part in the match.\<close>

definition capture :: "rmatch \<Rightarrow> nat \<Rightarrow> string" where
  "capture m n = the (groups m n)"

text \<open>The message pushed for a header match, its text still empty.\<close>

definition newMessage :: "rmatch \<Rightarrow> Message" where
  "newMessage m =
     \<lparr>date = capture m 1, time = capture m 2, sender = capture m 3, text = [], attachment = None\<rparr>"

text \<open>What one turn of the \<open>while\<close> loop does to \<open>parsed\<close>, given the match.\<close>

definition loopBody :: "string \<Rightarrow> (string \<rightharpoonup> Attachment) \<Rightarrow> nat \<Rightarrow> Message list \<Rightarrow> rmatch \<Rightarrow> Message list" where
  "loopBody txt attachmentMap lastIndex parsed m =
     (if parsed \<noteq> []
      then butlast parsed
           @ [assignBody (last parsed) (trim (substring txt lastIndex (index m))) attachmentMap]
      else parsed)
     @ [newMessage m]"

text \<open>
  A match never reaches back before the position it was started at, and a header match is
  at least one character long, because the pattern begins with a literal bracket. This is what
  makes the \<open>while\<close> loop of \<open>parseMessages\<close> come to an end.
\<close>

lemma matchItems_suffix:
  "matchItems ic items s caps = Some (caps', rest) \<Longrightarrow> suffix rest s"
  by (induction ic items s caps arbitrary: caps' rest rule: matchItems.induct)
     (auto split: if_splits option.splits intro: suffix_ConsI)

lemma matchItems_One_shorter:
  "matchItems ic (One a # items) s caps = Some (caps', rest) \<Longrightarrow> length rest < length s"
  by (cases s) (auto split: if_splits dest!: matchItems_suffix suffix_length_le)

lemma matchAlternatives_shorter:
  "matchAlternatives ic alts s = Some (caps', rest) \<Longrightarrow>
   \<forall>alt \<in> set alts. \<exists>a items. alt = One a # items \<Longrightarrow> length rest < length s"
  by (induction alts) (auto split: option.splits dest: matchItems_One_shorter)

lemma matchAlternatives_suffix:
  "matchAlternatives ic alts s = Some (caps', rest) \<Longrightarrow> suffix rest s"
  by (induction alts) (auto split: option.splits dest: matchItems_suffix)

lemma searchFrom_match:
  "searchFrom re s = Some (k, caps, rest) \<Longrightarrow>
   k \<le> length s \<and>
   matchAlternatives (ignoreCase re) (alternatives re) (drop k s) = Some (caps, rest)"
  by (induction re s arbitrary: k caps rest rule: searchFrom.induct)
     (auto split: option.splits)

lemma searchFrom_messageRegex_shorter:
  assumes "searchFrom messageRegex s = Some (k, caps, rest)"
  shows "k + length rest < length s"
proof -
  from searchFrom_match [OF assms]
  have k: "k \<le> length s"
    and m: "matchAlternatives False (alternatives messageRegex) (drop k s) = Some (caps, rest)"
    by (simp_all add: messageRegex_def)
  have "length rest < length (drop k s)"
    by (rule matchAlternatives_shorter [OF m]) (simp add: messageRegex_def)
  with k show ?thesis by simp
qed

lemma exec_messageRegex_bounds:
  assumes "exec messageRegex txt lastIndex = Some m"
  shows "lastIndex \<le> index m" and "index m < endIndex m" and "endIndex m \<le> length txt"
  using assms
  by (auto simp: exec_def split: if_splits option.splits
           dest!: searchFrom_messageRegex_shorter)

lemma exec_messageRegex_decreases:
  assumes "exec messageRegex txt lastIndex = Some m"
  shows "length txt - endIndex m < length txt - lastIndex"
  using exec_messageRegex_bounds [OF assms] by linarith

text \<open>
  The \<open>while\<close> loop. Its state is \<open>messageRegex.lastIndex\<close>, the local \<open>lastIndex\<close> and
  \<open>parsed\<close>; it ends when \<open>exec\<close> finds no further header.
\<close>

function parseLoop ::
  "string \<Rightarrow> (string \<rightharpoonup> Attachment) \<Rightarrow> nat \<Rightarrow> nat \<Rightarrow> Message list \<Rightarrow> Message list \<times> nat"
where
  "parseLoop txt attachmentMap regexLastIndex lastIndex parsed =
     (case exec messageRegex txt regexLastIndex of
        None \<Rightarrow> (parsed, lastIndex)
      | Some m \<Rightarrow>
          parseLoop txt attachmentMap (endIndex m) (endIndex m)
            (loopBody txt attachmentMap lastIndex parsed m))"
  by pat_completeness auto
termination
  by (relation "measure (\<lambda>(txt, attachmentMap, regexLastIndex, lastIndex, parsed).
                   length txt - regexLastIndex)")
     (auto intro: exec_messageRegex_decreases)

definition parseMessages :: "string \<Rightarrow> (string \<rightharpoonup> Attachment) \<Rightarrow> Message list" where
  "parseMessages txt attachmentMap =
     (case parseLoop txt attachmentMap 0 0 [] of
        (parsed, lastIndex) \<Rightarrow>
          if parsed \<noteq> []
          then butlast parsed
               @ [assignBody (last parsed) (trim (substringFrom txt lastIndex)) attachmentMap]
          else parsed)"

subsection \<open>Headers and bodies of a transcript\<close>

text \<open>
  The header matches of a transcript, as the left-to-right scan of a global regular expression
  finds them from index \<open>i\<close> on: each search starts where the match before it ended.
\<close>

function headerMatches :: "string \<Rightarrow> nat \<Rightarrow> rmatch list" where
  "headerMatches txt i =
     (case exec messageRegex txt i of
        None \<Rightarrow> []
      | Some m \<Rightarrow> m # headerMatches txt (endIndex m))"
  by pat_completeness auto
termination
  by (relation "measure (\<lambda>(txt, i). length txt - i)")
     (auto intro: exec_messageRegex_decreases)

text \<open>
  The body of each header: the text from the end of the header to the start of the next one,
  or to the end of the transcript for the last header.
\<close>

fun bodies :: "string \<Rightarrow> rmatch list \<Rightarrow> string list" where
  "bodies txt [] = []"
| "bodies txt [m] = [substringFrom txt (endIndex m)]"
| "bodies txt (m # m' # ms) = substring txt (endIndex m) (index m') # bodies txt (m' # ms)"

subsection \<open>The parser in terms of headers and bodies\<close>

text \<open>
  Two devices for the proofs: \<open>finish\<close> is the block that follows the loop, and \<open>chain\<close>
  completes the message \<open>cur\<close> that is waiting for its body at \<open>lastIndex\<close> and then goes
  through the remaining header matches.
\<close>

definition finish :: "string \<Rightarrow> (string \<rightharpoonup> Attachment) \<Rightarrow> Message list \<times> nat \<Rightarrow> Message list" where
  "finish txt attachmentMap r =
     (case r of (parsed, lastIndex) \<Rightarrow>
        if parsed \<noteq> []
        then butlast parsed
             @ [assignBody (last parsed) (trim (substringFrom txt lastIndex)) attachmentMap]
        else parsed)"

fun chain ::
  "string \<Rightarrow> (string \<rightharpoonup> Attachment) \<Rightarrow> Message \<Rightarrow> nat \<Rightarrow> rmatch list \<Rightarrow> Message list"
where
  "chain txt attachmentMap cur lastIndex [] =
     [assignBody cur (trim (substringFrom txt lastIndex)) attachmentMap]"
| "chain txt attachmentMap cur lastIndex (m # ms) =
     assignBody cur (trim (substring txt lastIndex (index m))) attachmentMap
     # chain txt attachmentMap (newMessage m) (endIndex m) ms"

text \<open>A header match with its indices moved \<open>k\<close> to the left.\<close>

definition shift :: "nat \<Rightarrow> rmatch \<Rightarrow> rmatch" where
  "shift k m = m\<lparr>index := index m - k, endIndex := endIndex m - k\<rparr>"

declare parseLoop.simps [simp del] headerMatches.simps [simp del]

lemma parseLoop_chain:
  "finish t amap (parseLoop t amap rli li (pre @ [cur]))
   = pre @ chain t amap cur li (headerMatches t rli)"
proof (induction t amap rli li "pre @ [cur]" arbitrary: pre cur rule: parseLoop.induct)
  case (1 t amap rli li)
  show ?case
  proof (cases "exec messageRegex t rli")
    case None
    then show ?thesis
      by (simp add: parseLoop.simps [of t amap rli] headerMatches.simps [of t rli] finish_def)
  next
    case (Some m)
    have lb: "loopBody t amap li (pre @ [cur]) m
       = (pre @ [assignBody cur (trim (substring t li (index m))) amap]) @ [newMessage m]"
      by (simp add: loopBody_def)
    show ?thesis
      using "1.hyps" [OF Some lb]
      by (simp add: parseLoop.simps [of t amap rli] headerMatches.simps [of t rli] Some lb)
  qed
qed

lemma chain_bodies:
  "chain t amap (newMessage m) (endIndex m) ms
   = map2 (\<lambda>m b. assignBody (newMessage m) (trim b) amap) (m # ms) (bodies t (m # ms))"
  by (induction ms arbitrary: m) auto

text \<open>
  The parser's result, header by header: the message of a header carries the header's three
  groups, and its text and attachment come from the trimmed body behind the header.
\<close>

lemma parseMessages_structure:
  "parseMessages t amap
   = map2 (\<lambda>m b. assignBody (newMessage m) (trim b) amap)
       (headerMatches t 0) (bodies t (headerMatches t 0))"
proof (cases "exec messageRegex t 0")
  case None
  then show ?thesis
    by (simp add: parseMessages_def parseLoop.simps [of t amap 0] headerMatches.simps [of t 0])
next
  case (Some m)
  have "parseMessages t amap
        = finish t amap (parseLoop t amap (endIndex m) (endIndex m) ([] @ [newMessage m]))"
    by (simp add: parseMessages_def finish_def parseLoop.simps [of t amap 0] Some loopBody_def)
  also have "\<dots> = chain t amap (newMessage m) (endIndex m) (headerMatches t (endIndex m))"
    using parseLoop_chain [of t amap "endIndex m" "endIndex m" "[]" "newMessage m"] by simp
  also have "\<dots> = map2 (\<lambda>m b. assignBody (newMessage m) (trim b) amap)
       (headerMatches t 0) (bodies t (headerMatches t 0))"
    by (simp add: chain_bodies headerMatches.simps [of t 0] Some)
  finally show ?thesis .
qed

lemma length_bodies: "length (bodies t ms) = length ms"
  by (induction t ms rule: bodies.induct) simp_all

lemma assignBody_header:
  "date (assignBody msg b amap) = date msg \<and> time (assignBody msg b amap) = time msg
   \<and> sender (assignBody msg b amap) = sender msg"
  by (simp add: assignBody_def split: option.splits)

subsection \<open>Where the headers lie\<close>

lemma searchFrom_bounds:
  "searchFrom re s = Some (k, caps, rest) \<Longrightarrow> k + length rest \<le> length s"
  using searchFrom_match [of re s k caps rest]
  by (auto dest!: matchAlternatives_suffix suffix_length_le)

lemma headerMatches_bounds:
  "m \<in> set (headerMatches t i) \<Longrightarrow>
   i \<le> index m \<and> index m < endIndex m \<and> endIndex m \<le> length t"
proof (induction t i rule: headerMatches.induct)
  case (1 t i)
  show ?case
  proof (cases "exec messageRegex t i")
    case None
    with "1.prems" show ?thesis by (simp add: headerMatches.simps [of t i])
  next
    case (Some m')
    note b = exec_messageRegex_bounds [OF Some]
    from "1.prems" Some have "m = m' \<or> m \<in> set (headerMatches t (endIndex m'))"
      by (simp add: headerMatches.simps [of t i])
    then show ?thesis
    proof
      assume "m = m'" with b show ?thesis by simp
    next
      assume "m \<in> set (headerMatches t (endIndex m'))"
      from "1.IH" [OF Some this] b show ?thesis by simp
    qed
  qed
qed

lemma headerMatches_ordered:
  "sorted_wrt (\<lambda>m m'. endIndex m \<le> index m') (headerMatches t i)"
proof (induction t i rule: headerMatches.induct)
  case (1 t i)
  show ?case
  proof (cases "exec messageRegex t i")
    case None
    then show ?thesis by (simp add: headerMatches.simps [of t i])
  next
    case (Some m)
    from "1.IH" [OF Some] Some show ?thesis
      by (auto simp: headerMatches.simps [of t i] dest: headerMatches_bounds)
  qed
qed

text \<open>
  A header match has all three of its groups: \<open>match[1]\<close>, \<open>match[2]\<close> and \<open>match[3]\<close>
  are strings, never \<open>undefined\<close>.
\<close>

lemma matchItems_closed_mono:
  "matchItems ic items s caps = Some (caps', rest) \<Longrightarrow> closed caps n \<noteq> None
   \<Longrightarrow> closed caps' n \<noteq> None"
  by (induction ic items s caps arbitrary: caps' rest rule: matchItems.induct)
     (auto split: if_splits option.splits)

lemma matchItems_closes_groups:
  "matchItems ic items s caps = Some (caps', rest) \<Longrightarrow> GroupClose n \<in> set items
   \<Longrightarrow> closed caps' n \<noteq> None"
proof (induction ic items s caps arbitrary: caps' rest rule: matchItems.induct)
  case (15 ic k items s caps)
  show ?case
  proof (cases "n = k")
    case True
    with "15.prems"(1) show ?thesis
      by (auto split: option.splits dest!: matchItems_closed_mono [where n = k])
  next
    case False
    with 15 show ?thesis by (auto split: option.splits)
  qed
qed (auto split: if_splits option.splits)

lemma exec_messageRegex_groups:
  assumes "exec messageRegex t i = Some m"
  shows "groups m 1 \<noteq> None \<and> groups m 2 \<noteq> None \<and> groups m 3 \<noteq> None"
proof -
  from assms obtain k caps rest where
    s: "searchFrom messageRegex (drop i t) = Some (k, caps, rest)" and g: "groups m = closed caps"
    by (auto simp: exec_def split: if_splits option.splits)
  from searchFrom_match [OF s]
  have "matchAlternatives False (alternatives messageRegex) (drop k (drop i t)) = Some (caps, rest)"
    by (simp add: messageRegex_def)
  then obtain items where
    m: "matchItems False items (drop k (drop i t)) noCaptures = Some (caps, rest)"
    and i: "alternatives messageRegex = [items]"
    by (auto simp: messageRegex_def split: option.splits)
  from i have "GroupClose 1 \<in> set items" "GroupClose 2 \<in> set items" "GroupClose 3 \<in> set items"
    by (auto simp: messageRegex_def)
  with m g show ?thesis by (simp add: matchItems_closes_groups)
qed

lemma headerMatches_groups:
  "m \<in> set (headerMatches t i) \<Longrightarrow>
   groups m 1 = Some (capture m 1) \<and> groups m 2 = Some (capture m 2)
   \<and> groups m 3 = Some (capture m 3)"
proof (induction t i rule: headerMatches.induct)
  case (1 t i)
  show ?case
  proof (cases "exec messageRegex t i")
    case None
    with "1.prems" show ?thesis by (simp add: headerMatches.simps [of t i])
  next
    case (Some m')
    from "1.prems" Some have "m = m' \<or> m \<in> set (headerMatches t (endIndex m'))"
      by (simp add: headerMatches.simps [of t i])
    then show ?thesis
    proof
      assume "m = m'"
      with exec_messageRegex_groups [OF Some] show ?thesis by (auto simp: capture_def)
    next
      assume "m \<in> set (headerMatches t (endIndex m'))"
      from "1.IH" [OF Some this] show ?thesis .
    qed
  qed
qed

subsection \<open>Cutting off the text before the first header\<close>

lemma substring_ordered:
  "a \<le> b \<Longrightarrow> b \<le> length s \<Longrightarrow> substring s a b = take (b - a) (drop a s)"
  by (simp add: substring_def)

lemma substring_beyond:
  "a \<le> b \<Longrightarrow> length s \<le> b \<Longrightarrow> substring s a b = drop a s"
  by (cases "a \<le> length s") (simp_all add: substring_def)

lemma substring_drop:
  assumes "k \<le> a" "a \<le> b"
  shows "substring (drop k s) (a - k) (b - k) = substring s a b"
proof (cases "b \<le> length s")
  case True
  with assms have "substring (drop k s) (a - k) (b - k)
                   = take (b - k - (a - k)) (drop (a - k) (drop k s))"
    by (intro substring_ordered) simp_all
  also from assms have "\<dots> = take (b - a) (drop a s)" by simp
  also from assms True have "\<dots> = substring s a b" by (simp add: substring_ordered)
  finally show ?thesis .
next
  case False
  with assms have "substring (drop k s) (a - k) (b - k) = drop (a - k) (drop k s)"
    by (intro substring_beyond) simp_all
  also from assms have "\<dots> = drop a s" by simp
  also from assms False have "\<dots> = substring s a b" by (simp add: substring_beyond)
  finally show ?thesis .
qed

lemma exec_drop:
  assumes "k \<le> li" "k \<le> length t"
  shows "exec re (drop k t) (li - k) = map_option (shift k) (exec re t li)"
proof (cases "li \<le> length t")
  case False
  with assms show ?thesis by (auto simp: exec_def)
next
  case True
  show ?thesis
  proof (cases "searchFrom re (drop li t)")
    case None
    with assms True show ?thesis by (simp add: exec_def)
  next
    case (Some r)
    obtain j caps rest where r: "r = (j, caps, rest)" by (cases r)
    from searchFrom_bounds [of re "drop li t" j caps rest] Some r True
    have b: "li + j + length rest \<le> length t" by simp
    have e1: "li - k + j = li + j - k"
      and e2: "length (drop k t) - length rest = length t - length rest - k"
      using assms b by simp_all
    have sub: "substring (drop k t) (li - k + j) (length (drop k t) - length rest)
          = substring t (li + j) (length t - length rest)"
      unfolding e1 e2 using assms b by (intro substring_drop) simp_all
    have "exec re (drop k t) (li - k) =
       Some \<lparr>index = li - k + j, endIndex = length (drop k t) - length rest,
             matched = substring (drop k t) (li - k + j) (length (drop k t) - length rest),
             groups = closed caps\<rparr>"
      using assms True Some r by (simp add: exec_def)
    moreover have "exec re t li =
       Some \<lparr>index = li + j, endIndex = length t - length rest,
             matched = substring t (li + j) (length t - length rest),
             groups = closed caps\<rparr>"
      using True Some r by (simp add: exec_def)
    ultimately show ?thesis
      unfolding sub using assms b by (simp add: shift_def)
  qed
qed

lemma headerMatches_drop:
  "k \<le> i \<Longrightarrow> k \<le> length t \<Longrightarrow>
   headerMatches (drop k t) (i - k) = map (shift k) (headerMatches t i)"
proof (induction t i rule: headerMatches.induct)
  case (1 t i)
  show ?case
  proof (cases "exec messageRegex t i")
    case None
    with 1 show ?thesis
      by (simp add: headerMatches.simps [of t i] headerMatches.simps [of "drop k t" "i - k"]
                    exec_drop)
  next
    case (Some m)
    from exec_messageRegex_bounds [OF Some] "1.prems" have ke: "k \<le> endIndex m" by simp
    from "1.IH" [OF Some ke "1.prems"(2)] Some "1.prems" show ?thesis
      by (simp add: headerMatches.simps [of t i] headerMatches.simps [of "drop k t" "i - k"]
                    exec_drop shift_def)
  qed
qed

lemma bodies_drop:
  "\<forall>m \<in> set ms. k \<le> index m \<and> index m \<le> endIndex m \<and> endIndex m \<le> length t \<Longrightarrow>
   sorted_wrt (\<lambda>m m'. endIndex m \<le> index m') ms \<Longrightarrow>
   bodies (drop k t) (map (shift k) ms) = bodies t ms"
proof (induction t ms rule: bodies.induct)
  case (1 t)
  then show ?case by simp
next
  case (2 t m)
  then have "k \<le> endIndex m" "endIndex m \<le> length t" by auto
  then have "substring (drop k t) (endIndex m - k) (length t - k)
             = substring t (endIndex m) (length t)"
    by (intro substring_drop)
  then show ?case by (simp add: substringFrom_def shift_def)
next
  case (3 t m m' ms)
  then have "k \<le> endIndex m" "endIndex m \<le> index m'" by auto
  then have "substring (drop k t) (endIndex m - k) (index m' - k)
             = substring t (endIndex m) (index m')"
    by (rule substring_drop)
  with 3 show ?case by (simp add: shift_def)
qed

lemma searchFrom_later:
  "searchFrom re s = Some (k, caps, rest) \<Longrightarrow> j \<le> k \<Longrightarrow>
   searchFrom re (drop j s) = Some (k - j, caps, rest)"
proof (induction re s arbitrary: k j rule: searchFrom.induct)
  case (1 re)
  then show ?case by (auto split: option.splits)
next
  case (2 re x xs)
  show ?case
  proof (cases j)
    case 0
    with 2 show ?thesis by simp
  next
    case (Suc j')
    with "2.prems" obtain k' where k: "k = Suc k'" "j' \<le> k'" by (cases k) auto
    from "2.prems" k
    have n: "matchAlternatives (ignoreCase re) (alternatives re) (x # xs) = None"
      and s: "searchFrom re xs = Some (k', caps, rest)"
      by (auto split: option.splits)
    from "2.IH" [OF n s k(2)] Suc k show ?thesis by simp
  qed
qed

lemma exec_later:
  assumes "exec re t i = Some m" "i \<le> j" "j \<le> index m"
  shows "exec re t j = Some m"
proof -
  from assms(1) obtain k caps rest where
    i: "i \<le> length t" and s: "searchFrom re (drop i t) = Some (k, caps, rest)"
    and m: "m = \<lparr>index = i + k, endIndex = length t - length rest,
                  matched = substring t (i + k) (length t - length rest), groups = closed caps\<rparr>"
    by (auto simp: exec_def split: if_splits option.splits)
  from searchFrom_bounds [OF s] i have b: "i + k + length rest \<le> length t" by simp
  from assms m have jk: "j - i \<le> k" by simp
  from searchFrom_later [OF s jk] assms(2)
  have "searchFrom re (drop j t) = Some (k - (j - i), caps, rest)" by simp
  with assms m b show ?thesis by (simp add: exec_def add.commute)
qed

lemma headerMatches_later:
  assumes "headerMatches t i = m # ms" "i \<le> j" "j \<le> index m"
  shows "headerMatches t j = m # ms"
proof -
  from assms(1) have e: "exec messageRegex t i = Some m"
    and r: "ms = headerMatches t (endIndex m)"
    by (auto simp: headerMatches.simps [of t i] split: option.splits)
  from exec_later [OF e assms(2,3)] r show ?thesis
    by (simp add: headerMatches.simps [of t j])
qed

lemma newMessage_shift: "newMessage (shift k m) = newMessage m"
  by (simp add: newMessage_def shift_def capture_def)

lemma map2_shift:
  "map2 (\<lambda>m b. f (newMessage m) b) (map (shift k) xs) ys
   = map2 (\<lambda>m b. f (newMessage m) b) xs ys"
proof (induction xs arbitrary: ys)
  case Nil
  show ?case by simp
next
  case (Cons x xs)
  then show ?case by (cases ys) (simp_all add: newMessage_shift)
qed

lemma parseMessages_drop_prefix:
  assumes "headerMatches t 0 = m # ms"
  shows "parseMessages (drop (index m) t) amap = parseMessages t amap"
proof -
  let ?k = "index m"
  have h: "headerMatches t ?k = m # ms"
    by (rule headerMatches_later [OF assms]) simp_all
  have kl: "?k \<le> length t"
    using headerMatches_bounds [of m t 0] assms by simp
  have hd: "headerMatches (drop ?k t) 0 = map (shift ?k) (m # ms)"
    using headerMatches_drop [of ?k ?k t] h kl by simp
  have b: "\<forall>m' \<in> set (m # ms).
             ?k \<le> index m' \<and> index m' \<le> endIndex m' \<and> endIndex m' \<le> length t"
    using headerMatches_bounds [of _ t ?k] h by (simp add: less_imp_le)
  have o: "sorted_wrt (\<lambda>m m'. endIndex m \<le> index m') (m # ms)"
    using headerMatches_ordered [of t 0] assms by simp
  have bd: "bodies (drop ?k t) (map (shift ?k) (m # ms)) = bodies t (m # ms)"
    by (rule bodies_drop [OF b o])
  have "parseMessages (drop ?k t) amap
        = map2 (\<lambda>m b. assignBody (newMessage m) (trim b) amap)
            (map (shift ?k) (m # ms)) (bodies t (m # ms))"
    by (simp only: parseMessages_structure hd bd)
  also have "\<dots> = map2 (\<lambda>m b. assignBody (newMessage m) (trim b) amap)
                      (m # ms) (bodies t (m # ms))"
    by (rule map2_shift)
  also have "\<dots> = parseMessages t amap"
    by (simp only: parseMessages_structure assms)
  finally show ?thesis .
qed


section \<open>Claims about the transcript parser\<close>

text \<open>
  C3. For every transcript and every attachment map, \<open>parseMessages\<close> returns exactly one
  message per header match, in the order in which the left-to-right scan finds the headers:
  the message at position \<open>k\<close> carries the date, time and sender groups of the header at
  position \<open>k\<close> (all three are defined for every header), and the headers lie one behind the other in the transcript. A transcript without
  a header match gives the empty sequence (a value, not an error; the parser has no failing
  branch). The text before the first header is discarded: cutting it off leaves the result
  as it is.
\<close>

theorem parseMessages_one_message_per_header:
  "length (parseMessages txt attachmentMap) = length (headerMatches txt 0)
   \<and> map (\<lambda>msg. (Some (date msg), Some (time msg), Some (sender msg)))
         (parseMessages txt attachmentMap)
       = map (\<lambda>m. (groups m 1, groups m 2, groups m 3)) (headerMatches txt 0)
   \<and> map (\<lambda>msg. (date msg, time msg, sender msg)) (parseMessages txt attachmentMap)
       = map (\<lambda>m. (capture m 1, capture m 2, capture m 3)) (headerMatches txt 0)
   \<and> sorted_wrt (\<lambda>m m'. index m < endIndex m \<and> endIndex m \<le> index m') (headerMatches txt 0)
   \<and> (case headerMatches txt 0 of
         [] \<Rightarrow> parseMessages txt attachmentMap = []
       | m # ms \<Rightarrow> parseMessages (drop (index m) txt) attachmentMap
                   = parseMessages txt attachmentMap)"
proof -
  let ?hs = "headerMatches txt 0"
  let ?f = "\<lambda>m b. assignBody (newMessage m) (trim b) attachmentMap"
  have s: "parseMessages txt attachmentMap = map2 ?f ?hs (bodies txt ?hs)"
    by (rule parseMessages_structure)
  have len: "length (parseMessages txt attachmentMap) = length ?hs"
    by (simp add: s length_bodies)
  have "map (\<lambda>msg. (date msg, time msg, sender msg)) (map2 ?f ?hs (bodies txt ?hs))
        = map (\<lambda>m. (capture m 1, capture m 2, capture m 3)) (map fst (zip ?hs (bodies txt ?hs)))"
    by (simp add: assignBody_header newMessage_def split_beta)
  also have "\<dots> = map (\<lambda>m. (capture m 1, capture m 2, capture m 3)) ?hs"
    by (simp only: map_fst_zip length_bodies)
  finally have hdr: "map (\<lambda>msg. (date msg, time msg, sender msg)) (parseMessages txt attachmentMap)
       = map (\<lambda>m. (capture m 1, capture m 2, capture m 3)) ?hs"
    by (simp only: s)
  have ord: "sorted_wrt (\<lambda>m m'. index m < endIndex m \<and> endIndex m \<le> index m') ?hs"
  proof (rule sorted_wrt_mono_rel [OF _ headerMatches_ordered])
    fix m m' assume "m \<in> set ?hs" "endIndex m \<le> index m'"
    with headerMatches_bounds [of m "txt" 0]
    show "index m < endIndex m \<and> endIndex m \<le> index m'" by simp
  qed
  have pre: "(case ?hs of
         [] \<Rightarrow> parseMessages txt attachmentMap = []
       | m # ms \<Rightarrow> parseMessages (drop (index m) txt) attachmentMap
                   = parseMessages txt attachmentMap)"
  proof (cases ?hs)
    case Nil
    with len show ?thesis by simp
  next
    case (Cons m ms)
    from parseMessages_drop_prefix [OF Cons] Cons show ?thesis by simp
  qed
  have "map (\<lambda>m. (groups m 1, groups m 2, groups m 3)) ?hs
        = map (\<lambda>m. (Some (capture m 1), Some (capture m 2), Some (capture m 3))) ?hs"
    by (rule map_cong [OF refl]) (simp add: headerMatches_groups del: One_nat_def)
  also have "\<dots> = map (\<lambda>(d, t, s). (Some d, Some t, Some s))
                      (map (\<lambda>m. (capture m 1, capture m 2, capture m 3)) ?hs)"
    by simp
  also have "\<dots> = map (\<lambda>msg. (Some (date msg), Some (time msg), Some (sender msg)))
                      (parseMessages txt attachmentMap)"
    by (simp only: hdr [symmetric]) simp
  finally have grp: "map (\<lambda>msg. (Some (date msg), Some (time msg), Some (sender msg)))
         (parseMessages txt attachmentMap)
       = map (\<lambda>m. (groups m 1, groups m 2, groups m 3)) ?hs"
    by (rule sym)
  from len grp hdr ord pre show ?thesis by blast
qed

text \<open>
  The example of the specification, with a line of text in front of the first header: two
  headers, two messages, in transcript order, and the leading line is gone.
\<close>

definition exampleTranscript :: string where
  "exampleTranscript =
     ''Messages are end-to-end encrypted.'' @ [CHR 0x0A]
     @ ''[1/1/24, 10:00] Alice: Hello'' @ [CHR 0x0A]
     @ ''[1/1/24, 10:01] Bob: Hi there''"

lemma exampleTranscript_headers:
  "map (\<lambda>m. (index m, endIndex m, capture m 1, capture m 2, capture m 3))
     (headerMatches exampleTranscript 0)
   = [(35, 58, ''1/1/24'', ''10:00'', ''Alice''), (64, 85, ''1/1/24'', ''10:01'', ''Bob'')]"
  by code_simp

theorem parseMessages_one_message_per_header_witness:
  "length (parseMessages exampleTranscript Map.empty) = 2
   \<and> map (\<lambda>msg. (date msg, time msg, sender msg)) (parseMessages exampleTranscript Map.empty)
       = [(''1/1/24'', ''10:00'', ''Alice''), (''1/1/24'', ''10:01'', ''Bob'')]
   \<and> parseMessages (drop 35 exampleTranscript) Map.empty
       = parseMessages exampleTranscript Map.empty"
proof -
  from exampleTranscript_headers obtain m1 m2
    where h: "headerMatches exampleTranscript 0 = [m1, m2]"
      and m1: "index m1 = 35" "capture m1 1 = ''1/1/24''" "capture m1 2 = ''10:00''"
              "capture m1 3 = ''Alice''"
      and m2: "capture m2 1 = ''1/1/24''" "capture m2 2 = ''10:01''" "capture m2 3 = ''Bob''"
    by auto
  from parseMessages_one_message_per_header [of exampleTranscript Map.empty] h m1 m2
  show ?thesis by simp
qed


text \<open>
  C1 (as the code has it). When the trimmed body of a message contains an attachment marker
  that cannot be resolved, that is, the first match of the marker pattern in the body is
  \<open><Media omitted>\<close> (no file name group) or \<open><attached: FILENAME>\<close> with \<open>FILENAME\<close> absent
  from the attachment map, \<open>parseMessages\<close> leaves the attachment of that message absent and
  sets its text to the trimmed body as it is: the marker stays in the text. The marker is
  removed only on the branch that finds the file in the map.
\<close>

theorem parseMessages_unresolved_marker_keeps_body:
  assumes "k < length (headerMatches txt 0)"
    and "matchFirst (trim (bodies txt (headerMatches txt 0) ! k)) attachmentRegex = Some marker"
    and "\<forall>fileName. groups marker 1 = Some fileName \<longrightarrow> attachmentMap fileName = None"
  shows "attachment (parseMessages txt attachmentMap ! k) = None
         \<and> text (parseMessages txt attachmentMap ! k)
             = trim (bodies txt (headerMatches txt 0) ! k)"
proof -
  let ?hs = "headerMatches txt 0"
  let ?b = "trim (bodies txt ?hs ! k)"
  from assms(1) have "parseMessages txt attachmentMap ! k
      = assignBody (newMessage (?hs ! k)) ?b attachmentMap"
    by (simp add: parseMessages_structure length_bodies)
  moreover from assms(2,3)
  have "assignBody (newMessage (?hs ! k)) ?b attachmentMap = (newMessage (?hs ! k))\<lparr>text := ?b\<rparr>"
    by (cases "groups marker 1") (simp_all add: assignBody_def)
  ultimately show ?thesis by (simp add: newMessage_def)
qed

text \<open>
  The third example of the specification, a transcript whose one message body is exactly
  \<open><Media omitted>\<close>, parsed with no attachment entries.
\<close>

definition mediaOmittedTranscript :: string where
  "mediaOmittedTranscript = ''[1/1/24, 10:00] Alice: <Media omitted>''"

lemma mediaOmittedTranscript_body:
  "length (headerMatches mediaOmittedTranscript 0) = 1
   \<and> trim (bodies mediaOmittedTranscript (headerMatches mediaOmittedTranscript 0) ! 0)
       = ''<Media omitted>''"
  by code_simp

lemma mediaOmitted_marker:
  "map_option (\<lambda>m. (index m, matched m, groups m 1)) (matchFirst ''<Media omitted>'' attachmentRegex)
   = Some (0, ''<Media omitted>'', None)"
  by code_simp

theorem parseMessages_unresolved_marker_keeps_body_witness:
  "attachment (parseMessages mediaOmittedTranscript Map.empty ! 0) = None
   \<and> text (parseMessages mediaOmittedTranscript Map.empty ! 0) = ''<Media omitted>''"
proof -
  from mediaOmitted_marker obtain marker
    where m: "matchFirst ''<Media omitted>'' attachmentRegex = Some marker" by auto
  from mediaOmittedTranscript_body
  have k: "0 < length (headerMatches mediaOmittedTranscript 0)"
    and b: "trim (bodies mediaOmittedTranscript (headerMatches mediaOmittedTranscript 0) ! 0)
            = ''<Media omitted>''"
    by simp_all
  from parseMessages_unresolved_marker_keeps_body
         [of 0 mediaOmittedTranscript marker Map.empty, OF k] m b
  show ?thesis by simp
qed

text \<open>
  The claim as the specification states it (the marker removed, so that the text of the
  example is the empty string) fails: the example parses to one message without attachment
  whose text is the marker itself, and a message whose marker names a file that is not in
  the map keeps the marker between the words around it.
\<close>

theorem parseMessages_unresolved_marker_counterexample:
  "parseMessages ''[1/1/24, 10:00] Alice: <Media omitted>'' Map.empty
     = [\<lparr>date = ''1/1/24'', time = ''10:00'', sender = ''Alice'',
         text = ''<Media omitted>'', attachment = None\<rparr>]
   \<and> text (hd (parseMessages ''[1/1/24, 10:00] Alice: <Media omitted>'' Map.empty)) \<noteq> []
   \<and> parseMessages ''[1/1/24, 10:00] Alice: see <attached: photo.jpg> here'' Map.empty
     = [\<lparr>date = ''1/1/24'', time = ''10:00'', sender = ''Alice'',
         text = ''see <attached: photo.jpg> here'', attachment = None\<rparr>]"
  by code_simp


section \<open>Attachment classification\<close>

text \<open>
  \<open>getAttachmentType\<close> (lines 296 to 303). \<open>filename.split('.').pop()\<close> is the last piece of
  the split, which always has one, so the \<open>?.\<close> never short-cuts and \<open>|| ''\<close> only maps the
  empty piece to itself.
\<close>

definition getAttachmentType :: "string \<Rightarrow> AttachmentType" where
  "getAttachmentType filename =
     (let ext = toLowerCase (last (split filename CHR ''.'')) in
      if ext \<in> set [''jpg'', ''jpeg'', ''png'', ''gif'', ''webp''] then image
      else if ext \<in> set [''mp4'', ''avi'', ''mov'', ''webm'', ''mkv''] then video
      else if ext \<in> set [''mp3'', ''wav'', ''ogg'', ''m4a''] then audio
      else if js_includes (toLowerCase filename) ''sticker'' then sticker
      else document)"

text \<open>
  The extension of a file name: what stands behind its last dot; the whole name when it has
  no dot.
\<close>

definition extension :: "string \<Rightarrow> string" where
  "extension filename = rev (takeWhile (\<lambda>c. c \<noteq> CHR ''.'') (rev filename))"

lemma split_not_Nil: "split s sep \<noteq> []"
  by (induction s) (auto split: list.splits)

lemma split_no_separator: "sep \<notin> set s \<Longrightarrow> split s sep = [s]"
  by (induction s) auto

lemma length_split_Cons:
  "length (split (x # xs) sep) = (if x = sep then Suc (length (split xs sep)) else length (split xs sep))"
  using split_not_Nil [of xs sep] by (cases "split xs sep") auto

lemma split_with_separator: "sep \<in> set s \<Longrightarrow> 2 \<le> length (split s sep)"
proof (induction s)
  case Nil
  then show ?case by simp
next
  case (Cons x xs)
  show ?case
  proof (cases "x = sep")
    case True
    with split_not_Nil [of xs sep] show ?thesis
      by (cases "split xs sep") simp_all
  next
    case False
    with Cons show ?thesis by (simp only: length_split_Cons) simp
  qed
qed

lemma last_split_after_separator:
  "sep \<notin> set b \<Longrightarrow> last (split (a @ sep # b) sep) = b"
proof (induction a)
  case Nil
  then show ?case by (simp add: split_no_separator)
next
  case (Cons x a)
  let ?r = "split (a @ sep # b) sep"
  have "2 \<le> length ?r" by (rule split_with_separator) simp
  then obtain p q qs where r: "?r = p # q # qs"
    by (cases ?r; cases "tl ?r") auto
  with Cons show ?case by auto
qed

lemma last_split: "last (split s sep) = rev (takeWhile (\<lambda>c. c \<noteq> sep) (rev s))"
proof (cases "sep \<in> set s")
  case True
  then obtain a b where s: "s = a @ sep # b" and b: "sep \<notin> set b"
    by (auto dest: split_list_last)
  have "takeWhile (\<lambda>c. c \<noteq> sep) (rev b @ sep # rev a) = takeWhile (\<lambda>c. c \<noteq> sep) (rev b)"
    by (rule takeWhile_tail) simp
  also from b have "\<dots> = rev b" by (auto simp: takeWhile_eq_all_conv)
  finally show ?thesis using last_split_after_separator [OF b, of a] s by simp
next
  case False
  then have t: "takeWhile (\<lambda>c. c \<noteq> sep) (rev s) = rev s"
    by (auto simp: takeWhile_eq_all_conv)
  show ?thesis unfolding split_no_separator [OF False] t by simp
qed

lemma js_includes_sublist: "js_includes s t = sublist t s"
  by (induction s) (simp_all add: sublist_Cons_right)

text \<open>
  C4. \<open>getAttachmentType\<close> is a total function of the file name alone, and it looks at the
  extension in lower case first: \<open>jpg\<close>, \<open>jpeg\<close>, \<open>png\<close>, \<open>gif\<close>, \<open>webp\<close> give \<open>image\<close>;
  \<open>mp4\<close>, \<open>avi\<close>, \<open>mov\<close>, \<open>webm\<close>, \<open>mkv\<close> give \<open>video\<close>; \<open>mp3\<close>, \<open>wav\<close>, \<open>ogg\<close>,
  \<open>m4a\<close> give \<open>audio\<close>. Only when the extension is none of these does the name in lower
  case decide: \<open>sticker\<close> when it contains \<open>sticker\<close>, \<open>document\<close> otherwise. So
  \<open>IMG-20240101-sticker.webp\<close> is an image. (The extension is what \<open>split('.').pop()\<close>
  gives: the part behind the last dot, and the whole name when there is no dot.)
\<close>

theorem getAttachmentType_by_extension:
  "getAttachmentType filename =
     (if toLowerCase (extension filename) \<in> {''jpg'', ''jpeg'', ''png'', ''gif'', ''webp''}
      then image
      else if toLowerCase (extension filename) \<in> {''mp4'', ''avi'', ''mov'', ''webm'', ''mkv''}
      then video
      else if toLowerCase (extension filename) \<in> {''mp3'', ''wav'', ''ogg'', ''m4a''}
      then audio
      else if sublist ''sticker'' (toLowerCase filename) then sticker
      else document)
   \<and> getAttachmentType ''IMG-20240101-sticker.webp'' = image"
proof -
  have e: "last (split filename CHR ''.'') = extension filename" for filename
    by (simp only: last_split extension_def)
  have general: "getAttachmentType filename =
     (if toLowerCase (extension filename) \<in> {''jpg'', ''jpeg'', ''png'', ''gif'', ''webp''}
      then image
      else if toLowerCase (extension filename) \<in> {''mp4'', ''avi'', ''mov'', ''webm'', ''mkv''}
      then video
      else if toLowerCase (extension filename) \<in> {''mp3'', ''wav'', ''ogg'', ''m4a''}
      then audio
      else if sublist ''sticker'' (toLowerCase filename) then sticker
      else document)"
    unfolding getAttachmentType_def Let_def e js_includes_sublist by simp
  have example: "getAttachmentType ''IMG-20240101-sticker.webp'' = image"
    by code_simp
  from general example show ?thesis by (rule conjI)
qed

lemma classification_examples:
  "toLowerCase (extension ''photo.JPG'') = ''jpg''
   \<and> toLowerCase (extension ''clip.final.Mp4'') = ''mp4''
   \<and> toLowerCase (extension ''STK-20240101-sticker.bin'') = ''bin''
   \<and> sublist ''sticker'' (toLowerCase ''STK-20240101-Sticker.bin'')
   \<and> toLowerCase (extension ''STK-20240101-Sticker.bin'') = ''bin''
   \<and> toLowerCase (extension ''notes.pdf'') = ''pdf''
   \<and> \<not> sublist ''sticker'' (toLowerCase ''notes.pdf'')"
  by code_simp

theorem getAttachmentType_by_extension_witness:
  "getAttachmentType ''photo.JPG'' = image
   \<and> getAttachmentType ''clip.final.Mp4'' = video
   \<and> getAttachmentType ''STK-20240101-Sticker.bin'' = sticker
   \<and> getAttachmentType ''notes.pdf'' = document
   \<and> getAttachmentType ''IMG-20240101-sticker.webp'' = image"
  using getAttachmentType_by_extension [of "''photo.JPG''"]
        getAttachmentType_by_extension [of "''clip.final.Mp4''"]
        getAttachmentType_by_extension [of "''STK-20240101-Sticker.bin''"]
        getAttachmentType_by_extension [of "''notes.pdf''"]
        classification_examples
  by simp


section \<open>The page state\<close>

text \<open>
  What a \<open>Blob\<close> holds, as far as the page can tell: its size, the natural width and height
  when the browser decodes it as a picture (\<open>img.onload\<close>; \<open>None\<close> stands for
  \<open>img.onerror\<close>), and whether it loads and seeks as a video (\<open>video.onseeked\<close> against
  \<open>video.onerror\<close>). \<open>img.width\<close> and \<open>img.height\<close> are \<open>unsigned long\<close> attributes, so the
  two numbers of a picture are below \<open>2 ^ 32\<close>.
\<close>

record Payload =
  byteSize :: nat
  picture :: "(nat \<times> nat) option"
  playable :: bool

text \<open>
  What an object URL stands for: a blob that came out of the archive, or the JPEG that
  \<open>canvas.toBlob\<close> encodes. Of the latter the model keeps the width and the height of the
  canvas, in pixels, and the width and the height that \<open>drawImage\<close> was given, which are
  numbers.
\<close>

datatype ObjectBlob =
    FromEntry Payload
  | FromCanvas nat nat rat rat

text \<open>
  An entry of a zip as JSZip presents it: its name, the \<open>dir\<close> flag, and what
  \<open>async('blob')\<close> and \<open>async('string')\<close> resolve to, \<open>None\<close> when they reject (a damaged
  entry).
\<close>

record ZipEntry =
  entryName :: string
  dir :: bool
  asBlob :: "Payload option"
  asString :: "string option"

text \<open>
  The file handed to \<open>processZipFile\<close>: either \<open>JSZip.loadAsync\<close> rejects it, or it yields
  the entries of \<open>contents.files\<close> in their order.
\<close>

datatype ZipBlob = NotAZip | Zip "ZipEntry list"

record SavedChat =
  savedId :: string
  savedName :: string
  timestamp :: nat
  messageCount :: nat
  participants :: "string list"
  zipBlob :: ZipBlob

text \<open>
  The state of the page: the \<open>useState\<close> values and the \<open>blobUrls\<close> ref of \<open>Home\<close> that the
  operations below read or write (the colour scheme, the dialogs, the media filter and the
  measured row heights are left out), and behind them the browser: the object URLs that
  are alive, the blob that each of them stands for, the next URL that
  \<open>URL.createObjectURL\<close> will hand out, the object store \<open>chats\<close> of the database in key
  order, and the alerts shown so far.
\<close>

record State =
  allMessages :: "Message list"
  currentUser :: string
  savedUsername :: string
  allSenders :: "string list"
  loading :: bool
  searchTerm :: string
  searchResults :: "nat list"
  currentSearchIndex :: int
  savedChats :: "SavedChat list"
  currentChatId :: string
  currentChatName :: string
  showMediaPanel :: bool
  blobUrls :: "url list"
  liveUrls :: "url set"
  urlBlobs :: "url \<rightharpoonup> ObjectBlob"
  nextUrl :: url
  chats :: "(string \<times> SavedChat) list"
  alerts :: "string list"

text \<open>The state after the first render: every \<open>useState\<close> at its initial value.\<close>

definition initialState :: State where
  "initialState =
     \<lparr>allMessages = [], currentUser = [], savedUsername = [], allSenders = [],
      loading = False, searchTerm = [], searchResults = [], currentSearchIndex = - 1,
      savedChats = [], currentChatId = [], currentChatName = [], showMediaPanel = False,
      blobUrls = [], liveUrls = {}, urlBlobs = Map.empty, nextUrl = 0, chats = [],
      alerts = []\<rparr>"

section \<open>Search\<close>

text \<open>
  \<open>performSearch\<close> (lines 530 to 550). The \<open>forEach\<close> pushes the indices of the matching
  messages in ascending order. \<open>scrollToMessage\<close> only moves the list and is left out.
\<close>

definition messageMatches :: "string \<Rightarrow> Message \<Rightarrow> bool" where
  "messageMatches term msg =
     (js_includes (toLowerCase (text msg)) (toLowerCase term)
      \<or> js_includes (toLowerCase (sender msg)) (toLowerCase term))"

definition performSearch :: "State \<Rightarrow> State" where
  "performSearch st =
     (if trim (searchTerm st) = []
      then st\<lparr>searchResults := [], currentSearchIndex := - 1\<rparr>
      else
        (let results = filter (\<lambda>index. messageMatches (searchTerm st) (allMessages st ! index))
                         [0 ..< length (allMessages st)]
         in st\<lparr>searchResults := results,
                currentSearchIndex := (if length results > 0 then 0 else - 1)\<rparr>))"

text \<open>
  The remainder operator \<open>%\<close> of JavaScript on integers: the result has the sign of the
  dividend. (The divisor is never zero where the page uses it.)
\<close>

definition remainder :: "int \<Rightarrow> int \<Rightarrow> int" where
  "remainder a b = sgn a * (\<bar>a\<bar> mod \<bar>b\<bar>)"

text \<open>\<open>nextSearchResult\<close> and \<open>prevSearchResult\<close> (lines 558 to 572).\<close>

definition nextSearchResult :: "State \<Rightarrow> State" where
  "nextSearchResult st =
     (if length (searchResults st) = 0 then st
      else
        (let nextIndex = remainder (currentSearchIndex st + 1) (int (length (searchResults st)))
         in st\<lparr>currentSearchIndex := nextIndex\<rparr>))"

definition prevSearchResult :: "State \<Rightarrow> State" where
  "prevSearchResult st =
     (if length (searchResults st) = 0 then st
      else
        (let prevIndex = remainder (currentSearchIndex st - 1 + int (length (searchResults st)))
                           (int (length (searchResults st)))
         in st\<lparr>currentSearchIndex := prevIndex\<rparr>))"

text \<open>Typing into the search box: \<open>onChange\<close> stores the value.\<close>

definition setSearchTerm :: "string \<Rightarrow> State \<Rightarrow> State" where
  "setSearchTerm term st = st\<lparr>searchTerm := term\<rparr>"


subsection \<open>Facts about the search functions\<close>

lemma remainder_nonneg: "0 \<le> a \<Longrightarrow> 0 < b \<Longrightarrow> remainder a b = a mod b"
  by (cases "a = 0") (simp_all add: remainder_def)

lemma dropWhile_all_iff: "(\<forall>x \<in> set (dropWhile P s). P x) \<longleftrightarrow> (\<forall>x \<in> set s. P x)"
proof (cases "dropWhile P s")
  case Nil
  then have "\<forall>x \<in> set s. P x" by simp
  then show ?thesis unfolding Nil by simp
next
  case (Cons x xs)
  then have "\<not> P x" using hd_dropWhile [of P s] by simp
  moreover from Cons have "x \<in> set (dropWhile P s)" by simp
  moreover from this have "x \<in> set s" by (rule set_dropWhileD)
  ultimately show ?thesis by blast
qed

lemma trim_empty_iff: "trim s = [] \<longleftrightarrow> (\<forall>c \<in> set s. isWhiteSpace c)"
  by (simp add: trim_def dropWhile_all_iff)

lemma nextSearchResult_iterated:
  assumes "currentSearchIndex st < int (length (searchResults st))" "0 \<le> currentSearchIndex st"
  shows "(nextSearchResult ^^ k) st
         = st\<lparr>currentSearchIndex :=
                (currentSearchIndex st + int k) mod int (length (searchResults st))\<rparr>"
proof (induction k)
  case 0
  from assms show ?case by simp
next
  case (Suc k)
  let ?n = "int (length (searchResults st))"
  from assms have n: "0 < ?n" by linarith
  then have ne: "searchResults st \<noteq> []" by auto
  have "(nextSearchResult ^^ Suc k) st
        = nextSearchResult (st\<lparr>currentSearchIndex := (currentSearchIndex st + int k) mod ?n\<rparr>)"
    by (simp add: Suc.IH)
  also have "\<dots> = st\<lparr>currentSearchIndex :=
                       remainder ((currentSearchIndex st + int k) mod ?n + 1) ?n\<rparr>"
    using ne by (simp add: nextSearchResult_def Let_def)
  also have "remainder ((currentSearchIndex st + int k) mod ?n + 1) ?n
        = ((currentSearchIndex st + int k) mod ?n + 1) mod ?n"
    using n pos_mod_sign [OF n, of "currentSearchIndex st + int k"]
    by (intro remainder_nonneg) linarith+
  also have "\<dots> = (currentSearchIndex st + int k + 1) mod ?n"
    by (rule mod_add_left_eq)
  also have "currentSearchIndex st + int k + 1 = currentSearchIndex st + int (Suc k)"
    by simp
  finally show ?case .
qed

lemma prevSearchResult_iterated:
  assumes "currentSearchIndex st < int (length (searchResults st))" "0 \<le> currentSearchIndex st"
  shows "(prevSearchResult ^^ k) st
         = st\<lparr>currentSearchIndex :=
                (currentSearchIndex st - int k) mod int (length (searchResults st))\<rparr>"
proof (induction k)
  case 0
  from assms show ?case by simp
next
  case (Suc k)
  let ?n = "int (length (searchResults st))"
  from assms have n: "0 < ?n" by linarith
  then have ne: "searchResults st \<noteq> []" by auto
  have "(prevSearchResult ^^ Suc k) st
        = prevSearchResult (st\<lparr>currentSearchIndex := (currentSearchIndex st - int k) mod ?n\<rparr>)"
    by (simp add: Suc.IH)
  also have "\<dots> = st\<lparr>currentSearchIndex :=
                       remainder ((currentSearchIndex st - int k) mod ?n - 1 + ?n) ?n\<rparr>"
    using ne by (simp add: prevSearchResult_def Let_def)
  also have "remainder ((currentSearchIndex st - int k) mod ?n - 1 + ?n) ?n
        = ((currentSearchIndex st - int k) mod ?n - 1 + ?n) mod ?n"
    using n pos_mod_sign [OF n, of "currentSearchIndex st - int k"]
    by (intro remainder_nonneg) linarith+
  also have "\<dots> = ((currentSearchIndex st - int k) mod ?n - 1) mod ?n"
    by simp
  also have "\<dots> = (currentSearchIndex st - int k - 1) mod ?n"
    by (rule mod_diff_left_eq)
  also have "currentSearchIndex st - int k - 1 = currentSearchIndex st - int (Suc k)"
    by simp
  finally show ?case .
qed

text \<open>
  C5. When the result sequence is empty, \<open>nextSearchResult\<close> and \<open>prevSearchResult\<close> change
  nothing. When it has \<open>n > 0\<close> results and the cursor is on one of them, \<open>next\<close> moves the
  cursor to \<open>(cursor + 1) mod n\<close> and \<open>prev\<close> to \<open>(cursor - 1 + n) mod n\<close>, neither touches
  anything else, and \<open>n\<close> times \<open>next\<close> (or \<open>n\<close> times \<open>prev\<close>) brings the page back to the
  state it started from; each undoes the other.
\<close>

theorem search_navigation_is_circular:
  "(searchResults st = [] \<longrightarrow> nextSearchResult st = st \<and> prevSearchResult st = st)
   \<and> (0 \<le> currentSearchIndex st \<and> currentSearchIndex st < int (length (searchResults st)) \<longrightarrow>
        nextSearchResult st
          = st\<lparr>currentSearchIndex :=
                 (currentSearchIndex st + 1) mod int (length (searchResults st))\<rparr>
        \<and> prevSearchResult st
          = st\<lparr>currentSearchIndex :=
                 (currentSearchIndex st - 1 + int (length (searchResults st)))
                   mod int (length (searchResults st))\<rparr>
        \<and> (nextSearchResult ^^ length (searchResults st)) st = st
        \<and> (prevSearchResult ^^ length (searchResults st)) st = st
        \<and> prevSearchResult (nextSearchResult st) = st
        \<and> nextSearchResult (prevSearchResult st) = st)"
proof (intro conjI impI)
  assume "searchResults st = []"
  then show "nextSearchResult st = st" "prevSearchResult st = st"
    by (simp_all add: nextSearchResult_def prevSearchResult_def)
next
  let ?n = "int (length (searchResults st))"
  let ?c = "currentSearchIndex st"
  assume a: "0 \<le> ?c \<and> ?c < ?n"
  then have ne: "searchResults st \<noteq> []" by auto
  from a have c0: "0 \<le> ?c" and cn: "?c < ?n" by simp_all
  from nextSearchResult_iterated [OF cn c0, of 1]
  show nx: "nextSearchResult st = st\<lparr>currentSearchIndex := (?c + 1) mod ?n\<rparr>"
    by simp
  from prevSearchResult_iterated [OF cn c0, of 1]
  show pv: "prevSearchResult st = st\<lparr>currentSearchIndex := (?c - 1 + ?n) mod ?n\<rparr>"
    by simp
  from nextSearchResult_iterated [OF cn c0, of "length (searchResults st)"] a
  show "(nextSearchResult ^^ length (searchResults st)) st = st" by simp
  from prevSearchResult_iterated [OF cn c0, of "length (searchResults st)"] a
  show "(prevSearchResult ^^ length (searchResults st)) st = st" by simp
  from a have n0: "0 < ?n" by linarith
  note n1 = pos_mod_sign [OF n0, of "?c + 1"]
  have "prevSearchResult (nextSearchResult st)
        = st\<lparr>currentSearchIndex := remainder ((?c + 1) mod ?n - 1 + ?n) ?n\<rparr>"
    using ne by (simp add: nx prevSearchResult_def Let_def)
  also have "remainder ((?c + 1) mod ?n - 1 + ?n) ?n = ((?c + 1) mod ?n - 1 + ?n) mod ?n"
    using n1 n0 by (intro remainder_nonneg) linarith+
  also have "\<dots> = ((?c + 1) mod ?n - 1) mod ?n" by simp
  also have "\<dots> = (?c + 1 - 1) mod ?n" by (rule mod_diff_left_eq)
  also have "\<dots> = ?c" using c0 cn by simp
  finally show "prevSearchResult (nextSearchResult st) = st" by simp
  note p1 = pos_mod_sign [OF n0, of "?c - 1 + ?n"]
  have "nextSearchResult (prevSearchResult st)
        = st\<lparr>currentSearchIndex := remainder ((?c - 1 + ?n) mod ?n + 1) ?n\<rparr>"
    using ne by (simp add: pv nextSearchResult_def Let_def)
  also have "remainder ((?c - 1 + ?n) mod ?n + 1) ?n = ((?c - 1 + ?n) mod ?n + 1) mod ?n"
    using p1 n0 by (intro remainder_nonneg) linarith+
  also have "\<dots> = (?c - 1 + ?n + 1) mod ?n" by (rule mod_add_left_eq)
  also have "\<dots> = ?c" using c0 cn by simp
  finally show "nextSearchResult (prevSearchResult st) = st" by simp
qed

text \<open>Three results, the cursor on the last one: \<open>next\<close> wraps to the first.\<close>

definition threeResults :: State where
  "threeResults = initialState\<lparr>searchResults := [0, 2, 5], currentSearchIndex := 2\<rparr>"

theorem search_navigation_is_circular_witness:
  "currentSearchIndex (nextSearchResult threeResults) = 0
   \<and> currentSearchIndex (prevSearchResult threeResults) = 1
   \<and> (nextSearchResult ^^ 3) threeResults = threeResults
   \<and> nextSearchResult initialState = initialState
   \<and> prevSearchResult initialState = initialState"
proof -
  have c: "currentSearchIndex threeResults = 2" and n: "length (searchResults threeResults) = 3"
    by (simp_all add: threeResults_def)
  have e: "searchResults initialState = []"
    by (simp add: initialState_def)
  from search_navigation_is_circular [of threeResults] c n
  have "nextSearchResult threeResults = threeResults\<lparr>currentSearchIndex := 0\<rparr>"
    and "prevSearchResult threeResults = threeResults\<lparr>currentSearchIndex := 1\<rparr>"
    and "(nextSearchResult ^^ 3) threeResults = threeResults"
    by simp_all
  moreover from search_navigation_is_circular [of initialState] e
  have "nextSearchResult initialState = initialState"
    and "prevSearchResult initialState = initialState"
    by simp_all
  ultimately show ?thesis by simp
qed


text \<open>
  C6. A search term that is empty or consists of white space only gives the empty result
  sequence and no selection (the search is inactive; it does not match everything). And
  whatever the state, running \<open>performSearch\<close> leaves the cursor on the first result (index
  \<open>0\<close>) when there are results, and at no selection (\<open>-1\<close>) when there are none.
\<close>

theorem performSearch_blank_term_and_cursor_reset:
  "((\<forall>c \<in> set (searchTerm st). isWhiteSpace c) \<longrightarrow>
      searchResults (performSearch st) = [] \<and> currentSearchIndex (performSearch st) = - 1)
   \<and> currentSearchIndex (performSearch st)
       = (if searchResults (performSearch st) = [] then - 1 else 0)"
  by (simp add: performSearch_def Let_def trim_empty_iff)

text \<open>
  Two messages, one of them containing a blank; the cursor is somewhere from an earlier
  search. Searching for three blanks finds nothing, searching for \<open>hello\<close> selects the
  first hit.
\<close>

definition twoMessages :: State where
  "twoMessages =
     initialState
       \<lparr>allMessages :=
          [\<lparr>date = ''1/1/24'', time = ''10:00'', sender = ''Alice'',
            text = ''Hello world'', attachment = None\<rparr>,
           \<lparr>date = ''1/1/24'', time = ''10:01'', sender = ''Bob'',
            text = ''hello Alice'', attachment = None\<rparr>],
        searchResults := [0, 1], currentSearchIndex := 1\<rparr>"

lemma search_hello:
  "searchResults (performSearch (twoMessages\<lparr>searchTerm := ''hello''\<rparr>)) = [0, 1]"
  by code_simp

theorem performSearch_blank_term_and_cursor_reset_witness:
  "searchResults (performSearch (twoMessages\<lparr>searchTerm := ''   ''\<rparr>)) = []
   \<and> currentSearchIndex (performSearch (twoMessages\<lparr>searchTerm := ''   ''\<rparr>)) = - 1
   \<and> currentSearchIndex (performSearch (twoMessages\<lparr>searchTerm := ''hello''\<rparr>)) = 0"
proof -
  have "\<forall>c \<in> set (searchTerm (twoMessages\<lparr>searchTerm := ''   ''\<rparr>)). isWhiteSpace c"
    by (simp add: isWhiteSpace_def)
  with performSearch_blank_term_and_cursor_reset [of "twoMessages\<lparr>searchTerm := ''   ''\<rparr>"]
  have "searchResults (performSearch (twoMessages\<lparr>searchTerm := ''   ''\<rparr>)) = []"
    and "currentSearchIndex (performSearch (twoMessages\<lparr>searchTerm := ''   ''\<rparr>)) = - 1"
    by blast+
  moreover from performSearch_blank_term_and_cursor_reset
                  [of "twoMessages\<lparr>searchTerm := ''hello''\<rparr>"] search_hello
  have "currentSearchIndex (performSearch (twoMessages\<lparr>searchTerm := ''hello''\<rparr>)) = 0"
    by simp
  ultimately show ?thesis by simp
qed

subsection \<open>Matching without regard to case\<close>










section \<open>The persistence store\<close>

text \<open>
  The object store \<open>chats\<close> is created with \<open>keyPath: 'id'\<close> (\<open>openDB\<close>, lines 38 to 50): it
  holds at most one record per key and keeps its records in key order, strings comparing
  code unit by code unit. \<open>store.put\<close> adds the record, or replaces the record that has the
  same key; \<open>store.getAll\<close> returns the records in key order; \<open>store.delete\<close> removes the
  record of a key if there is one.
\<close>

fun storePut :: "SavedChat \<Rightarrow> (string \<times> SavedChat) list \<Rightarrow> (string \<times> SavedChat) list" where
  "storePut chat [] = [(savedId chat, chat)]"
| "storePut chat ((k, c) # records) =
     (if savedId chat = k then (k, chat) # records
      else if savedId chat < k then (savedId chat, chat) # (k, c) # records
      else (k, c) # storePut chat records)"

definition storeGetAll :: "(string \<times> SavedChat) list \<Rightarrow> SavedChat list" where
  "storeGetAll records = map snd records"

definition storeDelete :: "string \<Rightarrow> (string \<times> SavedChat) list \<Rightarrow> (string \<times> SavedChat) list" where
  "storeDelete k records = filter (\<lambda>(k', c). k' \<noteq> k) records"

text \<open>
  What the surroundings decide: the value of \<open>Date.now()\<close>, whether \<open>indexedDB.open\<close>
  succeeds, whether a write fits the quota, and whether \<open>canvas.getContext('2d')\<close> returns
  a context.
\<close>

datatype StorageError = StorageUnavailable | StorageQuotaExceeded

record Env =
  now :: nat
  databaseOpens :: bool
  quotaLeft :: bool
  canvasContext :: bool

text \<open>
  \<open>saveChat\<close>, \<open>getAllChats\<close> and \<open>deleteChat\<close> (lines 52 to 83): each opens the database and
  runs one request; the promise rejects with the error of whichever fails.
\<close>

definition saveChat :: "Env \<Rightarrow> SavedChat \<Rightarrow> State \<Rightarrow> StorageError + State" where
  "saveChat env chat st =
     (if \<not> databaseOpens env then Inl StorageUnavailable
      else if \<not> quotaLeft env then Inl StorageQuotaExceeded
      else Inr (st\<lparr>chats := storePut chat (chats st)\<rparr>))"

definition getAllChats :: "Env \<Rightarrow> State \<Rightarrow> StorageError + SavedChat list" where
  "getAllChats env st =
     (if \<not> databaseOpens env then Inl StorageUnavailable
      else Inr (storeGetAll (chats st)))"

definition deleteChat :: "Env \<Rightarrow> string \<Rightarrow> State \<Rightarrow> StorageError + State" where
  "deleteChat env k st =
     (if \<not> databaseOpens env then Inl StorageUnavailable
      else Inr (st\<lparr>chats := storeDelete k (chats st)\<rparr>))"

lemma storePut_idem: "storePut chat (storePut chat records) = storePut chat records"
  by (induction chat records rule: storePut.induct) auto

lemma map_of_storePut:
  "map_of (storePut chat records) = (map_of records)(savedId chat \<mapsto> chat)"
  by (induction chat records rule: storePut.induct) (auto simp: fun_eq_iff)

lemma storePut_sorted:
  "sorted_wrt (<) (map fst records) \<Longrightarrow> sorted_wrt (<) (map fst (storePut chat records))"
proof (induction chat records rule: storePut.induct)
  case (1 chat)
  show ?case by simp
next
  case (2 chat k c records)
  have "set (map fst (storePut chat records)) = insert (savedId chat) (set (map fst records))"
    by (simp only: set_map flip: dom_map_of_conv_image_fst) (simp add: map_of_storePut)
  with 2 show ?case by auto
qed

lemma length_storePut:
  "sorted_wrt (<) (map fst records) \<Longrightarrow>
   length (storePut chat records)
   = (if savedId chat \<in> fst ` set records then length records else Suc (length records))"
  by (induction chat records rule: storePut.induct) (auto simp: rev_image_eqI)

text \<open>
  C8. While the database opens and the quota allows the write, \<open>saveChat\<close> stores the record
  under its id: afterwards the record of that id is the one that was put and the records of
  all other ids are as before. Putting the same record again changes nothing, so
  \<open>getAllChats\<close> returns the same records, and as many of them, after two puts as after one;
  and in a store that is in key order a put adds one record when the id is new and none
  when it replaces.
\<close>

theorem saveChat_put_is_idempotent:
  "databaseOpens env \<and> quotaLeft env \<longrightarrow>
     (\<exists>st'. saveChat env chat st = Inr st'
        \<and> map_of (chats st') = (map_of (chats st))(savedId chat \<mapsto> chat)
        \<and> saveChat env chat st' = Inr st'
        \<and> getAllChats env st' = Inr (storeGetAll (chats st'))
        \<and> (sorted_wrt (<) (map fst (chats st)) \<longrightarrow>
             sorted_wrt (<) (map fst (chats st'))
             \<and> length (storeGetAll (chats st'))
                 = (if savedId chat \<in> fst ` set (chats st) then length (chats st)
                    else Suc (length (chats st)))))"
  by (simp add: saveChat_def getAllChats_def storePut_idem map_of_storePut storePut_sorted
                length_storePut storeGetAll_def)


definition exampleChat :: SavedChat where
  "exampleChat =
     \<lparr>savedId = ''1704103200000'', savedName = ''Alice'', timestamp = 1704103200000,
      messageCount = 2, participants = [''Alice'', ''Bob''], zipBlob = Zip []\<rparr>"

definition workingEnv :: Env where
  "workingEnv =
     \<lparr>now = 1704103200000, databaseOpens = True, quotaLeft = True, canvasContext = True\<rparr>"

theorem saveChat_put_is_idempotent_witness:
  "\<exists>st'. saveChat workingEnv exampleChat initialState = Inr st'
         \<and> saveChat workingEnv exampleChat st' = Inr st'
         \<and> map_of (chats st') ''1704103200000'' = Some exampleChat
         \<and> length (storeGetAll (chats st')) = 1"
proof -
  have e: "databaseOpens workingEnv \<and> quotaLeft workingEnv"
    by (simp add: workingEnv_def)
  have s: "sorted_wrt (<) (map fst (chats initialState))" "chats initialState = []"
    by (simp_all add: initialState_def)
  have i: "savedId exampleChat = ''1704103200000''"
    by (simp add: exampleChat_def)
  from saveChat_put_is_idempotent [of workingEnv exampleChat initialState] e s i
  show ?thesis by auto
qed

section \<open>Thumbnails\<close>

subsection \<open>JavaScript numbers\<close>

text \<open>
  A JavaScript number is an IEEE 754 double: zero, or \<open>m * 2 ^ e\<close> for a significand \<open>m\<close>
  below \<open>2 ^ 53\<close> in absolute value and an exponent \<open>e\<close> from \<open>-1074\<close> to \<open>971\<close>. The finite
  doubles are taken as the rationals they denote. The result of \<open>*\<close> and of \<open>/\<close> is the exact
  result rounded to the nearest double, a tie going to the even significand.

  Rounding a rational to the nearest integer, ties to even.
\<close>

definition roundHalfEven :: "rat \<Rightarrow> int" where
  "roundHalfEven x =
     (let f = \<lfloor>x\<rfloor>; d = x - of_int f in
      if d < 1 / 2 then f else if 1 / 2 < d then f + 1 else if even f then f else f + 1)"

text \<open>
  The exponents of the doubles, and the exponent that the doubles around \<open>x\<close> have: the one
  for which the significand of \<open>x\<close> has 53 bits, or the least exponent when \<open>x\<close> is smaller
  than every normal double.
\<close>

definition exponents :: "int list" where
  "exponents = [- 1074 .. 971]"

definition inBinade :: "rat \<Rightarrow> int \<Rightarrow> bool" where
  "inBinade x e \<longleftrightarrow> 2 ^ 52 * 2 powi e \<le> \<bar>x\<bar> \<and> \<bar>x\<bar> < 2 ^ 53 * 2 powi e"

definition ulpExponent :: "rat \<Rightarrow> int" where
  "ulpExponent x =
     (case find (inBinade x) exponents of
        Some e \<Rightarrow> e
      | None \<Rightarrow> - 1074)"

text \<open>
  The double nearest to \<open>x\<close>, for \<open>x\<close> that is not above the largest double,
  \<open>(2 ^ 53 - 1) * 2 ^ 971\<close>, in absolute value. (A larger result is \<open>Infinity\<close> in
  JavaScript, which the numbers of this page, products and quotients of picture dimensions
  and of the bound 200, do not reach.)
\<close>

definition roundToDouble :: "rat \<Rightarrow> rat" where
  "roundToDouble x = of_int (roundHalfEven (x / 2 powi ulpExponent x)) * 2 powi ulpExponent x"

text \<open>
  Assigning a number to \<open>canvas.width\<close> or \<open>canvas.height\<close>, which are \<open>unsigned long\<close>
  attributes: the number is truncated towards zero and taken modulo \<open>2 ^ 32\<close>.
\<close>

definition toUnsignedLong :: "rat \<Rightarrow> nat" where
  "toUnsignedLong x = nat ((if 0 \<le> x then \<lfloor>x\<rfloor> else - \<lfloor>- x\<rfloor>) mod 2 ^ 32)"

text \<open>
  The size computed in \<open>img.onload\<close> of \<open>generateThumbnail\<close> (lines 97 to 110) from the
  natural width and height of the decoded picture, which are whole numbers below \<open>2 ^ 32\<close>
  and so are doubles as they stand, and from the two bounds, which are numbers. The
  comparisons are exact; the product and the quotient are rounded, one after the other.
  With bounds that are not negative, a division happens only by a width or a height that is
  above its bound, so no divisor is zero, and the product is below \<open>2 ^ 64\<close>.
\<close>

definition thumbnailSize :: "nat \<Rightarrow> nat \<Rightarrow> rat \<Rightarrow> rat \<Rightarrow> rat \<times> rat" where
  "thumbnailSize imgWidth imgHeight maxWidth maxHeight =
     (let width = of_nat imgWidth; height = of_nat imgHeight in
      if width > height
      then (if width > maxWidth
            then (maxWidth, roundToDouble (roundToDouble (height * maxWidth) / width))
            else (width, height))
      else (if height > maxHeight
            then (roundToDouble (roundToDouble (width * maxHeight) / height), maxHeight)
            else (width, height)))"

subsection \<open>Facts about rounding\<close>

text \<open>Rounding to an integer moves a number by at most a half and leaves an integer alone.\<close>

lemma roundHalfEven_error: "\<bar>of_int (roundHalfEven x) - x\<bar> \<le> 1 / 2"
proof -
  have "of_int \<lfloor>x\<rfloor> \<le> x" "x < of_int \<lfloor>x\<rfloor> + 1" by linarith+
  then show ?thesis
    unfolding roundHalfEven_def Let_def by (auto simp: abs_le_iff)
qed

lemma roundHalfEven_of_int: "roundHalfEven (of_int k) = k"
  by (simp add: roundHalfEven_def)

text \<open>
  The exponent found is the exponent of the binade of \<open>x\<close> when \<open>x\<close> lies in one, and it is
  never above the exponent of a binade that bounds \<open>x\<close>.
\<close>

lemma set_exponents: "set exponents = {- 1074 .. 971}"
  by (simp only: exponents_def set_upto)

lemma ulpExponent_lower: "- 1074 \<le> ulpExponent x"
proof (cases "find (inBinade x) exponents")
  case None
  then show ?thesis by (simp add: ulpExponent_def)
next
  case (Some e)
  then have "e \<in> set exponents"
    by (auto simp: find_Some_iff)
  with Some show ?thesis by (simp add: ulpExponent_def set_exponents)
qed

lemma ulpExponent_upper:
  assumes "\<bar>x\<bar> < 2 ^ 53 * 2 powi b" and "- 1074 \<le> b"
  shows "ulpExponent x \<le> b"
proof (cases "find (inBinade x) exponents")
  case None
  with assms(2) show ?thesis by (simp add: ulpExponent_def)
next
  case (Some e)
  then have "inBinade x e"
    by (auto simp: find_Some_iff)
  then have "2 ^ 52 * 2 powi e \<le> \<bar>x\<bar>"
    by (simp only: inBinade_def)
  with assms(1) have "2 ^ 52 * (2::rat) powi e < 2 ^ 53 * 2 powi b" by linarith
  then have "(2::rat) powi e < 2 powi (b + 1)"
    by (simp add: power_int_add)
  then have "e < b + 1"
    by (metis less_irrefl not_le_imp_less one_le_numeral order_le_less_trans power_int_increasing)
  with Some show ?thesis by (simp add: ulpExponent_def)
qed

lemma ulpExponent_unique:
  assumes "- 1074 \<le> b" and "b \<le> 971"
    and "2 ^ 52 * 2 powi b \<le> \<bar>x\<bar>" and "\<bar>x\<bar> < 2 ^ 53 * 2 powi b"
  shows "ulpExponent x = b"
proof (cases "find (inBinade x) exponents")
  case None
  with assms show ?thesis by (auto simp: find_None_iff set_exponents inBinade_def)
next
  case (Some e)
  from Some have u: "ulpExponent x = e" by (simp add: ulpExponent_def)
  from Some have "inBinade x e" by (auto simp: find_Some_iff)
  with u have e: "\<bar>x\<bar> < 2 ^ 53 * 2 powi e" "ulpExponent x = e"
    by (simp_all only: inBinade_def)
  from assms(3) e(1) have "2 ^ 52 * (2::rat) powi b < 2 ^ 53 * 2 powi e" by linarith
  then have "(2::rat) powi b < 2 powi (e + 1)"
    by (simp add: power_int_add)
  then have "b < e + 1"
    by (metis less_irrefl not_le_imp_less one_le_numeral order_le_less_trans power_int_increasing)
  moreover from assms(4) assms(1) have "ulpExponent x \<le> b" by (rule ulpExponent_upper)
  ultimately show ?thesis using e(2) by simp
qed

lemma roundToDouble_error:
  assumes "\<bar>x\<bar> < 2 ^ 53 * 2 powi b" and "- 1074 \<le> b"
  shows "\<bar>roundToDouble x - x\<bar> \<le> 2 powi b / 2"
proof -
  define e where "e = ulpExponent x"
  define u :: rat where "u = 2 powi e"
  have u: "0 < u" by (simp add: u_def zero_less_power_int)
  from assms have "e \<le> b" unfolding e_def by (rule ulpExponent_upper)
  then have ub: "u \<le> 2 powi b"
    unfolding u_def by (intro power_int_increasing) simp_all
  have "roundToDouble x - x = (of_int (roundHalfEven (x / u)) - x / u) * u"
    using u by (simp add: roundToDouble_def e_def u_def algebra_simps)
  then have "\<bar>roundToDouble x - x\<bar> = \<bar>of_int (roundHalfEven (x / u)) - x / u\<bar> * u"
    using u by (simp add: abs_mult)
  also have "\<dots> \<le> (1 / 2) * u"
    using u roundHalfEven_error [of "x / u"] by (intro mult_right_mono) simp_all
  also have "\<dots> \<le> 2 powi b / 2" using ub by simp
  finally show ?thesis .
qed

lemma roundToDouble_of_int:
  assumes "\<bar>k\<bar> < 2 ^ 53"
  shows "roundToDouble (of_int k) = of_int k"
proof -
  define e where "e = ulpExponent (of_int k)"
  from assms have "\<bar>rat_of_int k\<bar> < 2 ^ 53 * 2 powi 0"
    by (simp flip: of_int_abs add: of_int_less_numeral_power_cancel_iff)
  then have "e \<le> 0" unfolding e_def by (rule ulpExponent_upper) simp
  then obtain n where n: "e = - int n"
    by (metis add.inverse_inverse nonneg_int_cases neg_le_0_iff_le)
  have "(2::rat) powi e = 1 / 2 ^ n"
    by (simp add: n power_int_minus_divide)
  then have "roundToDouble (of_int k) = of_int (roundHalfEven (of_int (k * 2 ^ n))) / 2 ^ n"
    by (simp add: roundToDouble_def flip: e_def)
  then show ?thesis
    by (simp only: roundHalfEven_of_int) simp
qed

lemma roundToDouble_of_nat:
  assumes "n < 2 ^ 53"
  shows "roundToDouble (of_nat n) = of_nat n"
proof -
  from assms have "\<bar>int n\<bar> < 2 ^ 53" by simp
  from roundToDouble_of_int [OF this] show ?thesis by simp
qed


lemma roundToDouble_quotient_error:
  assumes "0 < w" and "n < 256 * w"
  shows "\<bar>roundToDouble (of_nat n / of_nat w) - of_nat n / of_nat w\<bar> \<le> 1 / 2 ^ 46"
proof -
  define q :: rat where "q = of_nat n / of_nat w"
  from assms(1) have w0: "(0::rat) < of_nat w" by simp
  have "0 \<le> q" by (simp add: q_def)
  moreover from assms(2) have "(of_nat n :: rat) < of_nat (256 * w)"
    by (simp only: of_nat_less_iff)
  with w0 have "q < 256"
    unfolding q_def by (simp add: pos_divide_less_eq)
  ultimately have "\<bar>q\<bar> < 256" by simp
  moreover have "(256::rat) = 2 ^ 53 * 2 powi (- 45)"
    by (simp add: power_int_minus_divide)
  ultimately have "\<bar>q\<bar> < 2 ^ 53 * 2 powi (- 45)" by (simp only:)
  then have "\<bar>roundToDouble q - q\<bar> \<le> 2 powi (- 45) / 2"
    by (rule roundToDouble_error) simp
  then show ?thesis
    by (simp add: power_int_minus_divide q_def)
qed

lemma floor_roundToDouble_quotient:
  assumes "0 < w" and "w < 2 ^ 32" and "n < 256 * w"
  shows "\<lfloor>roundToDouble (of_nat n / of_nat w)\<rfloor> = int (n div w)"
proof -
  define q :: rat where "q = of_nat n / of_nat w"
  define k where "k = n div w"
  define r where "r = n mod w"
  from assms(1) have w0: "(0::rat) < of_nat w" by simp
  have n: "n = k * w + r" by (simp add: k_def r_def)
  have q: "q = of_nat k + of_nat r / of_nat w"
    using w0 by (simp add: q_def n add_divide_distrib)
  from assms(1,3) have k256: "k < 256"
    unfolding k_def by (simp add: less_mult_imp_div_less)
  show ?thesis
  proof (cases "r = 0")
    case True
    with q have "q = of_nat k" by simp
    moreover from k256 have "k < 2 ^ 53" by simp
    ultimately have "roundToDouble q = of_nat k" by (simp add: roundToDouble_of_nat)
    then show ?thesis by (simp add: q_def k_def)
  next
    case False
    from assms(2) have "(of_nat w :: rat) < 2 ^ 32"
      by (metis of_nat_less_numeral_power_cancel_iff)
    with w0 have small: "1 / 2 ^ 32 < 1 / (of_nat w :: rat)"
      by (simp add: frac_less2)
    from False have "1 \<le> r" by simp
    then have "(1::rat) \<le> of_nat r" by simp
    with w0 have lo: "1 / of_nat w \<le> of_nat r / (of_nat w :: rat)"
      by (simp add: divide_right_mono)
    from assms(1) have "r + 1 \<le> w" unfolding r_def
      by (simp add: Suc_leI)
    then have "(of_nat r :: rat) + 1 \<le> of_nat w"
      by (metis of_nat_1 of_nat_add of_nat_le_iff)
    then have "(of_nat r :: rat) \<le> of_nat w - 1" by simp
    with w0 have "of_nat r / (of_nat w :: rat) \<le> (of_nat w - 1) / of_nat w"
      by (simp add: divide_right_mono)
    also from w0 have "\<dots> = 1 - 1 / of_nat w"
      by (simp add: diff_divide_distrib)
    finally have hi: "of_nat r / (of_nat w :: rat) \<le> 1 - 1 / of_nat w" .
    from assms(1,3) have e: "\<bar>roundToDouble q - q\<bar> \<le> 1 / 2 ^ 46"
      unfolding q_def by (rule roundToDouble_quotient_error)
    have tiny: "(1::rat) / 2 ^ 46 < 1 / 2 ^ 32" by simp
    define x where "x = roundToDouble q"
    define a :: rat where "a = of_nat r / of_nat w"
    define c :: rat where "c = 1 / of_nat w"
    define s :: rat where "s = 1 / 2 ^ 32"
    define t :: rat where "t = 1 / 2 ^ 46"
    from e have "x - q \<le> t" "q - x \<le> t"
      unfolding x_def t_def by (simp_all only: abs_le_iff minus_diff_eq)
    moreover from q have "q = of_nat k + a" by (simp only: a_def)
    moreover from lo hi have "c \<le> a" "a \<le> 1 - c" by (simp_all only: a_def c_def)
    moreover from small tiny have "s < c" "t < s" by (simp_all only: s_def c_def t_def)
    ultimately have "of_nat k \<le> x" "x < of_nat k + 1" by linarith+
    then have "of_int (int k) \<le> roundToDouble q" "roundToDouble q < of_int (int k) + 1"
      by (simp_all add: x_def)
    then have "\<lfloor>roundToDouble q\<rfloor> = int k" by (rule floor_unique)
    then show ?thesis by (simp add: q_def k_def)
  qed
qed

lemma toUnsignedLong_floor:
  assumes "0 \<le> x" and "x < 2 ^ 32"
  shows "toUnsignedLong x = nat \<lfloor>x\<rfloor>"
proof -
  from assms(1) have "0 \<le> \<lfloor>x\<rfloor>" by simp
  moreover from assms(2) have "\<lfloor>x\<rfloor> < 2 ^ 32" by (simp add: floor_less_iff)
  ultimately show ?thesis using assms(1) by (simp add: toUnsignedLong_def)
qed

lemma toUnsignedLong_of_nat:
  assumes "n < 2 ^ 32"
  shows "toUnsignedLong (of_nat n) = n"
proof -
  from assms have "(of_nat n :: rat) < 2 ^ 32"
    by (metis of_nat_less_numeral_power_cancel_iff)
  then show ?thesis by (simp add: toUnsignedLong_floor)
qed

text \<open>The shorter side \<open>a\<close> of a picture whose longer side \<open>b\<close> is above 200.\<close>

lemma scaled_side:
  assumes "a \<le> b" and "200 < b" and "b < 2 ^ 32"
  defines "x \<equiv> roundToDouble (roundToDouble (of_nat a * 200) / of_nat b)"
  shows "toUnsignedLong x = a * 200 div b"
    and "\<bar>x - of_nat a * (200 / of_nat b)\<bar> \<le> 1 / 2 ^ 46"
    and "a * 200 div b \<le> 200"
proof -
  from assms(1,3) have "a < 2 ^ 32" by simp
  then have "a * 200 < 2 ^ 32 * 200" by simp
  then have "a * 200 < 2 ^ 53" by simp
  then have "roundToDouble (of_nat (a * 200)) = of_nat (a * 200)"
    by (rule roundToDouble_of_nat)
  then have x: "x = roundToDouble (of_nat (a * 200) / of_nat b)"
    by (simp add: x_def)
  from assms(2) have b0: "0 < b" by simp
  from assms(1) assms(2) have small: "a * 200 < 256 * b" by simp
  from assms(3) have f: "\<lfloor>x\<rfloor> = int (a * 200 div b)"
    unfolding x using b0 small by (intro floor_roundToDouble_quotient)
  from assms(1) have "a * 200 \<le> b * 200" by simp
  then have "a * 200 div b \<le> b * 200 div b" by (rule div_le_mono)
  with b0 show le: "a * 200 div b \<le> 200" by simp
  have "of_int \<lfloor>x\<rfloor> \<le> x" "x < of_int \<lfloor>x\<rfloor> + 1" by linarith+
  with f le have "0 \<le> x" "x < 2 ^ 32"
    by simp_all
  then have "toUnsignedLong x = nat \<lfloor>x\<rfloor>" by (rule toUnsignedLong_floor)
  with f show "toUnsignedLong x = a * 200 div b" by simp
  from b0 small
  have "\<bar>roundToDouble (of_nat (a * 200) / of_nat b) - of_nat (a * 200) / of_nat b\<bar>
        \<le> 1 / 2 ^ 46"
    by (rule roundToDouble_quotient_error)
  then show "\<bar>x - of_nat a * (200 / of_nat b)\<bar> \<le> 1 / 2 ^ 46"
    by (simp add: x)
qed

lemma thumbnailSize_canvas:
  assumes "w < 2 ^ 32" and "h < 2 ^ 32"
  shows "\<exists>dw dh.
           thumbnailSize w h 200 200 = (dw, dh)
           \<and> toUnsignedLong dw \<le> 200 \<and> toUnsignedLong dh \<le> 200
           \<and> (w \<le> 200 \<and> h \<le> 200 \<longrightarrow>
                dw = of_nat w \<and> dh = of_nat h
                \<and> toUnsignedLong dw = w \<and> toUnsignedLong dh = h)
           \<and> (200 < max w h \<longrightarrow>
                max (toUnsignedLong dw) (toUnsignedLong dh) = 200
                \<and> toUnsignedLong dw = w * 200 div max w h
                \<and> toUnsignedLong dh = h * 200 div max w h
                \<and> \<bar>dw - of_nat w * (200 / of_nat (max w h))\<bar> \<le> 1 / 2 ^ 46
                \<and> \<bar>dh - of_nat h * (200 / of_nat (max w h))\<bar> \<le> 1 / 2 ^ 46)"
proof (cases "h < w")
  case True
  show ?thesis
  proof (cases "200 < w")
    case big: True
    from True have "h \<le> w" by simp
    note s = scaled_side [OF this big assms(1)]
    have "toUnsignedLong 200 = 200" by (simp add: toUnsignedLong_def)
    with True big s show ?thesis
      by (simp add: thumbnailSize_def max_def)
  next
    case False
    with True assms show ?thesis
      by (simp add: thumbnailSize_def max_def toUnsignedLong_of_nat)
  qed
next
  case False
  then have hw: "w \<le> h" by simp
  show ?thesis
  proof (cases "200 < h")
    case big: True
    note s = scaled_side [OF hw big assms(2)]
    have "toUnsignedLong 200 = 200" by (simp add: toUnsignedLong_def)
    with hw big s show ?thesis
      by (simp add: thumbnailSize_def max_def)
  next
    case small: False
    with hw assms show ?thesis
      by (simp add: thumbnailSize_def max_def toUnsignedLong_of_nat)
  qed
qed

text \<open>The quotient \<open>40000 / 201\<close> is not a double; the nearest one lies a little above it.\<close>

lemma roundToDouble_example:
  "roundToDouble (40000 / 201) = 1750466273076219 / 2 ^ 43"
proof -
  have "ulpExponent (40000 / 201) = - 45"
    by (rule ulpExponent_unique) (simp_all add: power_int_minus_divide)
  moreover have "\<lfloor>(1407374883553280000::rat) / 201\<rfloor> = 7001865092304875"
    by (rule floor_unique) simp_all
  ultimately show ?thesis
    by (simp add: roundToDouble_def roundHalfEven_def Let_def power_int_minus_divide)
qed

lemma thumbnailSize_rounded: 
  "thumbnailSize 201 200 200 200 = (200, 1750466273076219 / 2 ^ 43)"
proof -
  have "roundToDouble (of_nat 40000) = of_nat 40000"
    by (rule roundToDouble_of_nat) simp
  then show ?thesis by (simp add: thumbnailSize_def roundToDouble_example)
qed

lemma toUnsignedLong_rounded: "toUnsignedLong (1750466273076219 / 2 ^ 43) = 199"
proof -
  have "\<lfloor>(1750466273076219::rat) / 2 ^ 43\<rfloor> = 199"
    by (rule floor_unique) simp_all
  then show ?thesis by (simp add: toUnsignedLong_def)
qed


section \<open>Loading an archive\<close>

subsection \<open>Object URLs\<close>

definition createObjectURL :: "ObjectBlob \<Rightarrow> State \<Rightarrow> url \<times> State" where
  "createObjectURL blob st =
     (nextUrl st,
      st\<lparr>liveUrls := insert (nextUrl st) (liveUrls st),
         urlBlobs := (urlBlobs st)(nextUrl st \<mapsto> blob),
         nextUrl := nextUrl st + 1\<rparr>)"

definition revokeObjectURL :: "url \<Rightarrow> State \<Rightarrow> State" where
  "revokeObjectURL u st =
     st\<lparr>liveUrls := liveUrls st - {u}, urlBlobs := (urlBlobs st)(u := None)\<rparr>"

text \<open>
  \<open>blobUrls.current.forEach((url) => URL.revokeObjectURL(url)); blobUrls.current = []\<close>
\<close>

definition revokeBlobUrls :: "State \<Rightarrow> State" where
  "revokeBlobUrls st = (fold revokeObjectURL (blobUrls st) st)\<lparr>blobUrls := []\<rparr>"

text \<open>
  \<open>generateThumbnail\<close> (lines 86 to 144). The canvas takes the computed size as its
  \<open>unsigned long\<close> width and height, the picture is drawn at the computed size, and the
  canvas is encoded. The result is the URL of the thumbnail, or \<open>None\<close> when the promise
  rejects: the picture does not load, there is no canvas context (the temporary URL is then
  not revoked), or \<open>toBlob\<close> passes \<open>null\<close>, which it does for a canvas without pixels, that
  is, when the width or the height of the canvas is zero.
\<close>

definition generateThumbnail :: "Env \<Rightarrow> Payload \<Rightarrow> rat \<Rightarrow> rat \<Rightarrow> State \<Rightarrow> url option \<times> State" where
  "generateThumbnail env blob maxWidth maxHeight st =
     (case createObjectURL (FromEntry blob) st of
        (u, st1) \<Rightarrow>
          (case picture blob of
             None \<Rightarrow> (None, revokeObjectURL u st1)
           | Some (imgWidth, imgHeight) \<Rightarrow>
               (case thumbnailSize imgWidth imgHeight maxWidth maxHeight of
                  (width, height) \<Rightarrow>
                    (let canvasWidth = toUnsignedLong width;
                         canvasHeight = toUnsignedLong height
                     in
                     if \<not> canvasContext env then (None, st1)
                     else
                       (let st2 = revokeObjectURL u st1 in
                        if canvasWidth = 0 \<or> canvasHeight = 0 then (None, st2)
                        else (case createObjectURL
                                     (FromCanvas canvasWidth canvasHeight width height) st2 of
                                (thumbnail, st3) \<Rightarrow> (Some thumbnail, st3)))))))"

text \<open>
  \<open>generateVideoThumbnail\<close> (lines 147 to 192), for a video that either loads and seeks or
  fails to load; the canvas is 200 by 200 and the frame is drawn over all of it.
\<close>

definition generateVideoThumbnail :: "Env \<Rightarrow> Payload \<Rightarrow> State \<Rightarrow> url option \<times> State" where
  "generateVideoThumbnail env blob st =
     (case createObjectURL (FromEntry blob) st of
        (u, st1) \<Rightarrow>
          if \<not> playable blob then (None, revokeObjectURL u st1)
          else if \<not> canvasContext env then (None, st1)
          else (case createObjectURL (FromCanvas 200 200 200 200) (revokeObjectURL u st1) of
                  (thumbnail, st3) \<Rightarrow> (Some thumbnail, st3)))"

subsection \<open>The size of a thumbnail\<close>

text \<open>
  C9 (as the code has it). For a picture of \<open>w\<close> by \<open>h\<close> pixels, both below \<open>2 ^ 32\<close> as
  \<open>img.width\<close> and \<open>img.height\<close> are, and the default bounds of 200 by 200, the canvas of the
  thumbnail has neither dimension above 200. A picture within
  the bounds is drawn at its own size on a canvas of its own size. When the longer
  dimension exceeds 200, the canvas is \<open>w * 200 div l\<close> by \<open>h * 200 div l\<close> pixels, \<open>l\<close> being the
  longer dimension: the longer side is 200 and the shorter side is the proportional length
  rounded down to whole pixels; the picture is drawn at a size that differs from the
  proportional one, \<open>w * (200 / l)\<close> by \<open>h * (200 / l)\<close>, by no more than \<open>1 / 2 ^ 46\<close>, the
  rounding of the division. With a canvas context at hand, \<open>generateThumbnail\<close> returns the
  URL of the encoded canvas, which is alive; except that it returns nothing when a side of
  the canvas is zero.
\<close>

theorem generateThumbnail_within_bounds:
  "picture blob = Some (w, h) \<and> w < 2 ^ 32 \<and> h < 2 ^ 32 \<and> canvasContext env \<longrightarrow>
     (\<exists>cw ch dw dh.
        thumbnailSize w h 200 200 = (dw, dh)
        \<and> cw = toUnsignedLong dw \<and> ch = toUnsignedLong dh
        \<and> cw \<le> 200 \<and> ch \<le> 200
        \<and> (w \<le> 200 \<and> h \<le> 200 \<longrightarrow>
             cw = w \<and> ch = h \<and> dw = of_nat w \<and> dh = of_nat h)
        \<and> (200 < max w h \<longrightarrow>
             max cw ch = 200
             \<and> cw = w * 200 div max w h
             \<and> ch = h * 200 div max w h
             \<and> \<bar>dw - of_nat w * (200 / of_nat (max w h))\<bar> \<le> 1 / 2 ^ 46
             \<and> \<bar>dh - of_nat h * (200 / of_nat (max w h))\<bar> \<le> 1 / 2 ^ 46)
        \<and> (cw = 0 \<or> ch = 0 \<longrightarrow> fst (generateThumbnail env blob 200 200 st) = None)
        \<and> (0 < cw \<and> 0 < ch \<longrightarrow>
             (\<exists>u st'. generateThumbnail env blob 200 200 st = (Some u, st')
                \<and> urlBlobs st' u = Some (FromCanvas cw ch dw dh)
                \<and> u \<in> liveUrls st')))"
proof
  assume a: "picture blob = Some (w, h) \<and> w < 2 ^ 32 \<and> h < 2 ^ 32 \<and> canvasContext env"
  then have "w < 2 ^ 32" "h < 2 ^ 32" by simp_all
  from thumbnailSize_canvas [OF this] obtain dw dh
    where size: "thumbnailSize w h 200 200 = (dw, dh)"
      and bounds: "toUnsignedLong dw \<le> 200" "toUnsignedLong dh \<le> 200"
      and within: "w \<le> 200 \<and> h \<le> 200 \<longrightarrow>
                     dw = of_nat w \<and> dh = of_nat h
                     \<and> toUnsignedLong dw = w \<and> toUnsignedLong dh = h"
      and beyond: "200 < max w h \<longrightarrow>
                     max (toUnsignedLong dw) (toUnsignedLong dh) = 200
                     \<and> toUnsignedLong dw = w * 200 div max w h
                     \<and> toUnsignedLong dh = h * 200 div max w h
                     \<and> \<bar>dw - of_nat w * (200 / of_nat (max w h))\<bar> \<le> 1 / 2 ^ 46
                     \<and> \<bar>dh - of_nat h * (200 / of_nat (max w h))\<bar> \<le> 1 / 2 ^ 46"
    by blast
  have none: "toUnsignedLong dw = 0 \<or> toUnsignedLong dh = 0 \<longrightarrow>
                fst (generateThumbnail env blob 200 200 st) = None"
    using a size
    by (auto simp: generateThumbnail_def createObjectURL_def revokeObjectURL_def Let_def)
  have some: "0 < toUnsignedLong dw \<and> 0 < toUnsignedLong dh \<longrightarrow>
                (\<exists>u st'. generateThumbnail env blob 200 200 st = (Some u, st')
                   \<and> urlBlobs st' u
                       = Some (FromCanvas (toUnsignedLong dw) (toUnsignedLong dh) dw dh)
                   \<and> u \<in> liveUrls st')"
    using a size
    by (simp add: generateThumbnail_def createObjectURL_def revokeObjectURL_def Let_def)
  from within
  have within': "w \<le> 200 \<and> h \<le> 200 \<longrightarrow>
                   toUnsignedLong dw = w \<and> toUnsignedLong dh = h
                   \<and> dw = of_nat w \<and> dh = of_nat h"
    by blast
  have same: "toUnsignedLong dw = toUnsignedLong dw" "toUnsignedLong dh = toUnsignedLong dh"
    by (rule refl)+
  from size same bounds within' beyond none some
  have "thumbnailSize w h 200 200 = (dw, dh)
        \<and> toUnsignedLong dw = toUnsignedLong dw \<and> toUnsignedLong dh = toUnsignedLong dh
        \<and> toUnsignedLong dw \<le> 200 \<and> toUnsignedLong dh \<le> 200
        \<and> (w \<le> 200 \<and> h \<le> 200 \<longrightarrow>
             toUnsignedLong dw = w \<and> toUnsignedLong dh = h
             \<and> dw = of_nat w \<and> dh = of_nat h)
        \<and> (200 < max w h \<longrightarrow>
             max (toUnsignedLong dw) (toUnsignedLong dh) = 200
             \<and> toUnsignedLong dw = w * 200 div max w h
             \<and> toUnsignedLong dh = h * 200 div max w h
             \<and> \<bar>dw - of_nat w * (200 / of_nat (max w h))\<bar> \<le> 1 / 2 ^ 46
             \<and> \<bar>dh - of_nat h * (200 / of_nat (max w h))\<bar> \<le> 1 / 2 ^ 46)
        \<and> (toUnsignedLong dw = 0 \<or> toUnsignedLong dh = 0 \<longrightarrow>
             fst (generateThumbnail env blob 200 200 st) = None)
        \<and> (0 < toUnsignedLong dw \<and> 0 < toUnsignedLong dh \<longrightarrow>
             (\<exists>u st'. generateThumbnail env blob 200 200 st = (Some u, st')
                \<and> urlBlobs st' u
                    = Some (FromCanvas (toUnsignedLong dw) (toUnsignedLong dh) dw dh)
                \<and> u \<in> liveUrls st'))"
    by (intro conjI)
  then show "\<exists>cw ch dw dh.
        thumbnailSize w h 200 200 = (dw, dh)
        \<and> cw = toUnsignedLong dw \<and> ch = toUnsignedLong dh
        \<and> cw \<le> 200 \<and> ch \<le> 200
        \<and> (w \<le> 200 \<and> h \<le> 200 \<longrightarrow>
             cw = w \<and> ch = h \<and> dw = of_nat w \<and> dh = of_nat h)
        \<and> (200 < max w h \<longrightarrow>
             max cw ch = 200
             \<and> cw = w * 200 div max w h
             \<and> ch = h * 200 div max w h
             \<and> \<bar>dw - of_nat w * (200 / of_nat (max w h))\<bar> \<le> 1 / 2 ^ 46
             \<and> \<bar>dh - of_nat h * (200 / of_nat (max w h))\<bar> \<le> 1 / 2 ^ 46)
        \<and> (cw = 0 \<or> ch = 0 \<longrightarrow> fst (generateThumbnail env blob 200 200 st) = None)
        \<and> (0 < cw \<and> 0 < ch \<longrightarrow>
             (\<exists>u st'. generateThumbnail env blob 200 200 st = (Some u, st')
                \<and> urlBlobs st' u = Some (FromCanvas cw ch dw dh)
                \<and> u \<in> liveUrls st'))"
    apply -
    apply (rule exI [where x = "toUnsignedLong dw"])
    apply (rule exI [where x = "toUnsignedLong dh"])
    apply (rule exI [where x = dw])
    apply (rule exI [where x = dh])
    apply assumption
    done
qed

text \<open>A picture of 400 by 300 pixels, one of 300 by 600, and one that is within the bounds.\<close>

definition pictureOf :: "nat \<Rightarrow> nat \<Rightarrow> Payload" where
  "pictureOf w h = \<lparr>byteSize = 1024, picture = Some (w, h), playable = False\<rparr>"

lemma toUnsignedLong_example: "toUnsignedLong 200 = 200 \<and> toUnsignedLong 150 = 150"
  by (simp add: toUnsignedLong_def)

lemma thumbnailSize_example: "thumbnailSize 400 300 200 200 = (200, 150)"
proof -
  have "roundToDouble (of_nat 60000) = of_nat 60000"
    by (rule roundToDouble_of_nat) simp
  moreover have "roundToDouble (of_nat 150) = of_nat 150"
    by (rule roundToDouble_of_nat) simp
  ultimately show ?thesis by (simp add: thumbnailSize_def)
qed

theorem generateThumbnail_within_bounds_witness:
  "(\<exists>u st'. generateThumbnail workingEnv (pictureOf 400 300) 200 200 initialState = (Some u, st')
      \<and> urlBlobs st' u = Some (FromCanvas 200 150 200 150)
      \<and> u \<in> liveUrls st')
   \<and> (\<exists>dw u st'.
        generateThumbnail workingEnv (pictureOf 300 600) 200 200 initialState = (Some u, st')
        \<and> urlBlobs st' u = Some (FromCanvas 100 200 dw 200))
   \<and> (\<exists>u st'. generateThumbnail workingEnv (pictureOf 120 80) 200 200 initialState = (Some u, st')
        \<and> urlBlobs st' u = Some (FromCanvas 120 80 120 80))
   \<and> fst (generateThumbnail workingEnv (pictureOf 1000 2) 200 200 initialState) = None"
proof -
  have e: "canvasContext workingEnv" by (simp add: workingEnv_def)
  have p: "picture (pictureOf w h) = Some (w, h)" for w h by (simp add: pictureOf_def)
  from generateThumbnail_within_bounds
         [where blob = "pictureOf 400 300" and w = 400 and h = 300 and env = workingEnv
            and st = initialState] e p [of 400 300] thumbnailSize_example
  have first: "\<exists>u st'.
      generateThumbnail workingEnv (pictureOf 400 300) 200 200 initialState = (Some u, st')
      \<and> urlBlobs st' u = Some (FromCanvas 200 150 200 150) \<and> u \<in> liveUrls st'"
    by auto
  from generateThumbnail_within_bounds
         [where blob = "pictureOf 300 600" and w = 300 and h = 600 and env = workingEnv
            and st = initialState] e p [of 300 600]
  have second: "\<exists>dw u st'.
      generateThumbnail workingEnv (pictureOf 300 600) 200 200 initialState = (Some u, st')
      \<and> urlBlobs st' u = Some (FromCanvas 100 200 dw 200)"
    by (auto simp: thumbnailSize_def)
  from generateThumbnail_within_bounds
         [where blob = "pictureOf 120 80" and w = 120 and h = 80 and env = workingEnv
            and st = initialState] e p [of 120 80]
  have third: "\<exists>u st'.
      generateThumbnail workingEnv (pictureOf 120 80) 200 200 initialState = (Some u, st')
      \<and> urlBlobs st' u = Some (FromCanvas 120 80 120 80)"
    by auto
  from generateThumbnail_within_bounds
         [where blob = "pictureOf 1000 2" and w = 1000 and h = 2 and env = workingEnv
            and st = initialState] e p [of 1000 2]
  have fourth: "fst (generateThumbnail workingEnv (pictureOf 1000 2) 200 200 initialState) = None"
    by auto
  from first second third fourth show ?thesis by blast
qed

text \<open>
  The claim as the specification states it, that the aspect ratio is preserved and the
  shorter side is scaled by the same ratio as the longer one, fails for a picture of 201 by
  200 pixels. Its height is drawn at the double nearest to \<open>40000 / 201\<close>, which is not that
  quotient, and the canvas, whose height is a whole number of pixels, is 200 by 199: the
  width is scaled by \<open>200 / 201\<close> and the height by \<open>199 / 200\<close>.
\<close>

theorem generateThumbnail_aspect_ratio_counterexample:
  "(\<exists>u st'. generateThumbnail workingEnv (pictureOf 201 200) 200 200 initialState = (Some u, st')
      \<and> urlBlobs st' u = Some (FromCanvas 200 199 200 (1750466273076219 / 2 ^ 43)))
   \<and> (200::nat) * 200 \<noteq> 199 * 201
   \<and> (200::rat) * 200 \<noteq> 1750466273076219 / 2 ^ 43 * 201
   \<and> (1750466273076219::rat) / 2 ^ 43 \<noteq> 200 * (200 / 201)"
proof -
  define d :: rat where "d = 1750466273076219 / 2 ^ 43"
  have "thumbnailSize 201 200 200 200 = (200, d)"
    by (simp only: d_def thumbnailSize_rounded)
  moreover have "toUnsignedLong d = 199"
    by (simp only: d_def toUnsignedLong_rounded)
  moreover have "toUnsignedLong 200 = 200"
    by (simp add: toUnsignedLong_def)
  ultimately have
    "\<exists>u st'. generateThumbnail workingEnv (pictureOf 201 200) 200 200 initialState = (Some u, st')
        \<and> urlBlobs st' u = Some (FromCanvas 200 199 200 d)"
    by (simp add: generateThumbnail_def pictureOf_def workingEnv_def createObjectURL_def
                  revokeObjectURL_def initialState_def)
  then show ?thesis by (simp add: d_def)
qed

subsection \<open>The name of a chat\<close>

text \<open>\<^verbatim>\<open>/\.zip$/i\<close>\<close>

definition zipSuffix :: regex where
  "zipSuffix = \<lparr>alternatives = [literal ''.zip'' @ [EndOfInput]], ignoreCase = True\<rparr>"

text \<open>
  \<^verbatim>\<open>/WhatsApp Chat - (.+)/i\<close>, \<^verbatim>\<open>/WhatsApp Chat with (.+)/i\<close> and \<^verbatim>\<open>/WhatsApp (.+)/i\<close>
\<close>

definition patterns :: "regex list" where
  "patterns =
     [\<lparr>alternatives = [literal ''WhatsApp Chat - '' @ [GroupOpen 1, Plus AnyChar, GroupClose 1]],
       ignoreCase = True\<rparr>,
      \<lparr>alternatives = [literal ''WhatsApp Chat with '' @ [GroupOpen 1, Plus AnyChar, GroupClose 1]],
       ignoreCase = True\<rparr>,
      \<lparr>alternatives = [literal ''WhatsApp '' @ [GroupOpen 1, Plus AnyChar, GroupClose 1]],
       ignoreCase = True\<rparr>]"

text \<open>The \<open>for\<close> loop over the patterns; \<open>None\<close> when no pattern returns.\<close>

fun firstPatternMatch :: "string \<Rightarrow> regex list \<Rightarrow> string option" where
  "firstPatternMatch nameWithoutExt [] = None"
| "firstPatternMatch nameWithoutExt (pattern # rest) =
     (case matchFirst nameWithoutExt pattern of
        None \<Rightarrow> firstPatternMatch nameWithoutExt rest
      | Some m \<Rightarrow>
          (case groups m 1 of
             None \<Rightarrow> firstPatternMatch nameWithoutExt rest
           | Some g \<Rightarrow> if g \<noteq> [] then Some (trim g) else firstPatternMatch nameWithoutExt rest))"

text \<open>\<open>extractChatName\<close> (lines 195 to 211).\<close>

definition extractChatName :: "string \<Rightarrow> string" where
  "extractChatName fileName =
     (let nameWithoutExt = replaceRegex fileName zipSuffix [] in
      case firstPatternMatch nameWithoutExt patterns of
        Some found \<Rightarrow> found
      | None \<Rightarrow> trim nameWithoutExt)"

subsection \<open>\<open>processZipFile\<close>\<close>

text \<open>\<open>n.toString()\<close> for a natural number: its decimal digits.\<close>

fun decimal :: "nat \<Rightarrow> string" where
  "decimal n =
     (if n < 10 then [''0123456789'' ! n]
      else decimal (n div 10) @ [''0123456789'' ! (n mod 10)])"

declare decimal.simps [simp del]

text \<open>\<open>[...new Set(xs)]\<close>: the distinct elements in the order of their first occurrence.\<close>

definition distinctInOrder :: "'a list \<Rightarrow> 'a list" where
  "distinctInOrder xs = rev (remdups (rev xs))"

text \<open>
  \<open>loadSavedChats\<close> (lines 273 to 280): the saved chats, newest first; an error is logged
  and nothing changes. The sort of JavaScript is stable.
\<close>

definition loadSavedChats :: "Env \<Rightarrow> State \<Rightarrow> State" where
  "loadSavedChats env st =
     (case getAllChats env st of
        Inl error \<Rightarrow> st
      | Inr found \<Rightarrow> st\<lparr>savedChats := sort_key (\<lambda>c. - int (timestamp c)) found\<rparr>)"

text \<open>
  The loop over \<open>Object.entries(contents.files)\<close> (lines 391 to 424). \<open>Inl\<close> is the state in
  which an \<open>await zipEntry.async('blob')\<close> has thrown; \<open>Inr\<close> is the attachment map with the
  state after the loop. A thumbnail that fails is logged and left out.
\<close>

fun extractEntries ::
  "Env \<Rightarrow> ZipEntry list \<Rightarrow> (string \<rightharpoonup> Attachment) \<Rightarrow> State
   \<Rightarrow> State + ((string \<rightharpoonup> Attachment) \<times> State)"
where
  "extractEntries env [] attachmentMap st = Inr (attachmentMap, st)"
| "extractEntries env (zipEntry # entries) attachmentMap st =
     (if entryName zipEntry = ''_chat.txt'' \<or> dir zipEntry
      then extractEntries env entries attachmentMap st
      else
        (case asBlob zipEntry of
           None \<Rightarrow> Inl st
         | Some blob \<Rightarrow>
             (let atype = getAttachmentType (entryName zipEntry) in
              case createObjectURL (FromEntry blob) st of
                (url, st1) \<Rightarrow>
                  (let st2 = st1\<lparr>blobUrls := blobUrls st1 @ [url]\<rparr> in
                   case (if atype = image \<or> atype = sticker
                         then (case generateThumbnail env blob 200 200 st2 of
                                 (Some thumbnail, st') \<Rightarrow>
                                   (Some thumbnail, st'\<lparr>blobUrls := blobUrls st' @ [thumbnail]\<rparr>)
                               | (None, st') \<Rightarrow> (None, st'))
                         else if atype = video
                         then (case generateVideoThumbnail env blob st2 of
                                 (Some thumbnail, st') \<Rightarrow>
                                   (Some thumbnail, st'\<lparr>blobUrls := blobUrls st' @ [thumbnail]\<rparr>)
                               | (None, st') \<Rightarrow> (None, st'))
                         else (None, st2)) of
                     (thumbnail, st3) \<Rightarrow>
                       extractEntries env entries
                         (attachmentMap(entryName zipEntry \<mapsto>
                            \<lparr>name = entryName zipEntry, type = atype, blobUrl = url,
                             size = byteSize blob, thumbnailUrl = thumbnail\<rparr>))
                         st3))))"

text \<open>
  The \<open>catch\<close> block followed by \<open>finally\<close>: the alert, and \<open>loading\<close> back to false.
\<close>

definition loadFailed :: "State \<Rightarrow> State" where
  "loadFailed st = st\<lparr>alerts := alerts st @ [''Error loading chat file''], loading := False\<rparr>"

text \<open>
  The rest of the \<open>try\<close> block once the transcript is parsed (lines 429 to 467): the
  messages and senders are installed, and a new upload (no \<open>chatId\<close>) is saved under the
  current time, which can throw. The delayed scroll to the last message is left out.
\<close>

definition installSession ::
  "Env \<Rightarrow> ZipBlob \<Rightarrow> string \<Rightarrow> string option \<Rightarrow> string option \<Rightarrow> Message list \<Rightarrow> State \<Rightarrow> State"
where
  "installSession env file fileName chatId chatName parsed st =
     (let senders = distinctInOrder (map (\<lambda>m. trim (sender m)) parsed);
          st1 = st\<lparr>allMessages := parsed, allSenders := senders,
                   currentUser := (if savedUsername st \<noteq> [] \<and> savedUsername st \<in> set senders
                                   then savedUsername st else [])\<rparr>
      in
      if chatId = None \<or> chatId = Some []
      then
        (let newChatId = decimal (now env);
             extractedName = (if chatName = None \<or> chatName = Some []
                              then extractChatName fileName else the chatName);
             savedChat = \<lparr>savedId = newChatId, savedName = extractedName, timestamp = now env,
                          messageCount = length parsed, participants = senders, zipBlob = file\<rparr>
         in
         case saveChat env savedChat st1 of
           Inl error \<Rightarrow> loadFailed st1
         | Inr st2 \<Rightarrow>
             (loadSavedChats env st2)
               \<lparr>currentChatId := newChatId, currentChatName := savedName savedChat,
                loading := False\<rparr>)
      else
        st1\<lparr>currentChatId := the chatId,
            currentChatName := (if chatName = None then [] else the chatName),
            loading := False\<rparr>)"

text \<open>
  \<open>processZipFile\<close> (lines 366 to 474). \<open>contents.file('_chat.txt')\<close> is the entry of that
  name unless it is a directory.
\<close>

definition processZipFile ::
  "Env \<Rightarrow> ZipBlob \<Rightarrow> string \<Rightarrow> string option \<Rightarrow> string option \<Rightarrow> State \<Rightarrow> State"
where
  "processZipFile env file fileName chatId chatName st =
     (let st0 = st\<lparr>loading := True, searchTerm := [], searchResults := [],
                   currentSearchIndex := - 1\<rparr>
      in
      case file of
        NotAZip \<Rightarrow> loadFailed st0
      | Zip files \<Rightarrow>
          (case find (\<lambda>e. entryName e = ''_chat.txt'' \<and> \<not> dir e) files of
             None \<Rightarrow>
               st0\<lparr>alerts := alerts st0 @ [''No _chat.txt file found in zip!''],
                   loading := False\<rparr>
           | Some chatFile \<Rightarrow>
               (case extractEntries env files Map.empty (revokeBlobUrls st0) of
                  Inl st1 \<Rightarrow> loadFailed st1
                | Inr (attachmentMap, st1) \<Rightarrow>
                    (case asString chatFile of
                       None \<Rightarrow> loadFailed st1
                     | Some txt \<Rightarrow>
                         installSession env file fileName chatId chatName
                           (parseMessages txt attachmentMap) st1))))"

text \<open>\<open>handleBackToHome\<close> (lines 516 to 528).\<close>

definition handleBackToHome :: "State \<Rightarrow> State" where
  "handleBackToHome st =
     revokeBlobUrls
       (st\<lparr>allMessages := [], currentChatId := [], currentChatName := [], currentUser := [],
           allSenders := [], searchTerm := [], searchResults := [], currentSearchIndex := - 1,
           showMediaPanel := False\<rparr>)"


section \<open>The page as a state machine\<close>

text \<open>
  The operations a user can trigger, with what the surroundings contribute to each.
  \<open>perform\<close> runs an operation from its beginning to its end; for \<open>processZipFile\<close>, which is
  \<open>async\<close>, that is the load during which nothing else happens on the page. The loads that
  other operations overtake are taken up below, under the operations while a load is
  awaiting.
\<close>

datatype Operation =
    PerformSearch
  | NextSearchResult
  | PrevSearchResult
  | SetSearchTerm string
  | ProcessZipFile Env ZipBlob string "string option" "string option"
  | HandleBackToHome

fun perform :: "Operation \<Rightarrow> State \<Rightarrow> State" where
  "perform PerformSearch st = performSearch st"
| "perform NextSearchResult st = nextSearchResult st"
| "perform PrevSearchResult st = prevSearchResult st"
| "perform (SetSearchTerm term) st = setSearchTerm term st"
| "perform (ProcessZipFile env file fileName chatId chatName) st =
     processZipFile env file fileName chatId chatName st"
| "perform HandleBackToHome st = handleBackToHome st"

text \<open>The state after a sequence of operations, first operation first.\<close>

definition run :: "Operation list \<Rightarrow> State \<Rightarrow> State" where
  "run ops st = fold perform ops st"

text \<open>
  The cursor is \<open>-1\<close> exactly when there are no results and otherwise points at one of them,
  and every result is the index of a message.
\<close>

definition cursorValid :: "State \<Rightarrow> bool" where
  "cursorValid st =
     ((currentSearchIndex st = - 1) = (searchResults st = [])
      \<and> (searchResults st \<noteq> [] \<longrightarrow>
           0 \<le> currentSearchIndex st
           \<and> currentSearchIndex st < int (length (searchResults st)))
      \<and> (\<forall>i \<in> set (searchResults st). i < length (allMessages st)))"

text \<open>The part of the state the search looks at.\<close>

definition searchView :: "State \<Rightarrow> nat list \<times> int \<times> Message list" where
  "searchView st = (searchResults st, currentSearchIndex st, allMessages st)"

lemma searchView_createObjectURL:
  "searchView (snd (createObjectURL blob st)) = searchView st"
  by (simp add: createObjectURL_def searchView_def)

lemma searchView_revokeObjectURL: "searchView (revokeObjectURL u st) = searchView st"
  by (simp add: revokeObjectURL_def searchView_def)

lemma searchView_fold_revoke: "searchView (fold revokeObjectURL us st) = searchView st"
  by (induction us arbitrary: st) (simp_all add: searchView_revokeObjectURL)

lemma searchView_revokeBlobUrls: "searchView (revokeBlobUrls st) = searchView st"
  using searchView_fold_revoke [of "blobUrls st" st]
  by (simp add: revokeBlobUrls_def searchView_def)

lemma searchView_generateThumbnail:
  "searchView (snd (generateThumbnail env blob maxWidth maxHeight st)) = searchView st"
  by (simp add: generateThumbnail_def createObjectURL_def revokeObjectURL_def searchView_def
                Let_def split: option.splits prod.splits)

lemma searchView_generateVideoThumbnail:
  "searchView (snd (generateVideoThumbnail env blob st)) = searchView st"
  by (simp add: generateVideoThumbnail_def createObjectURL_def revokeObjectURL_def
                searchView_def split: prod.splits)

lemma searchView_blobUrls: "searchView (st\<lparr>blobUrls := us\<rparr>) = searchView st"
  by (simp add: searchView_def)

text \<open>An outcome of the extraction loop that left the search view of \<open>st\<close> as it was.\<close>

definition keepsSearchView :: "State \<Rightarrow> State + ((string \<rightharpoonup> Attachment) \<times> State) \<Rightarrow> bool" where
  "keepsSearchView st r =
     (case r of
        Inl st' \<Rightarrow> searchView st' = searchView st
      | Inr (m, st') \<Rightarrow> searchView st' = searchView st)"

lemma keepsSearchView_cong:
  "keepsSearchView st3 r \<Longrightarrow> searchView st3 = searchView st \<Longrightarrow> keepsSearchView st r"
  by (auto simp: keepsSearchView_def split: sum.splits prod.splits)

lemma searchView_extractEntries:
  "keepsSearchView st (extractEntries env entries attachmentMap st)"
proof (induction entries arbitrary: attachmentMap st)
  case Nil
  show ?case by (simp add: keepsSearchView_def)
next
  case (Cons zipEntry entries)
  show ?case
  proof (cases "entryName zipEntry = ''_chat.txt'' \<or> dir zipEntry")
    case True
    with Cons.IH [where attachmentMap = attachmentMap and st = st] show ?thesis by simp
  next
    case skip: False
    show ?thesis
    proof (cases "asBlob zipEntry")
      case None
      with skip show ?thesis by (simp add: keepsSearchView_def)
    next
      case (Some blob)
      obtain url st1 where c: "createObjectURL (FromEntry blob) st = (url, st1)"
        by (cases "createObjectURL (FromEntry blob) st")
      with searchView_createObjectURL [where blob = "FromEntry blob" and st = st]
      have v1: "searchView st1 = searchView st" by simp
      let ?st2 = "st1\<lparr>blobUrls := blobUrls st1 @ [url]\<rparr>"
      let ?atype = "getAttachmentType (entryName zipEntry)"
      let ?t = "if ?atype = image \<or> ?atype = sticker
                then (case generateThumbnail env blob 200 200 ?st2 of
                        (Some thumbnail, st') \<Rightarrow>
                          (Some thumbnail, st'\<lparr>blobUrls := blobUrls st' @ [thumbnail]\<rparr>)
                      | (None, st') \<Rightarrow> (None, st'))
                else if ?atype = video
                then (case generateVideoThumbnail env blob ?st2 of
                        (Some thumbnail, st') \<Rightarrow>
                          (Some thumbnail, st'\<lparr>blobUrls := blobUrls st' @ [thumbnail]\<rparr>)
                      | (None, st') \<Rightarrow> (None, st'))
                else (None, ?st2)"
      obtain thumbnail st3 where t: "?t = (thumbnail, st3)" by (cases ?t)
      have "searchView (snd ?t) = searchView ?st2"
        using searchView_generateThumbnail
                [where env = env and blob = blob and maxWidth = 200 and maxHeight = 200
                   and st = ?st2]
              searchView_generateVideoThumbnail [where env = env and blob = blob and st = ?st2]
        by (auto simp: searchView_blobUrls split: prod.splits option.splits)
      with t v1 have v3: "searchView st3 = searchView st"
        by (simp add: searchView_blobUrls)
      let ?m = "attachmentMap(entryName zipEntry \<mapsto>
                  \<lparr>name = entryName zipEntry, type = ?atype, blobUrl = url,
                   size = byteSize blob, thumbnailUrl = thumbnail\<rparr>)"
      have eq: "extractEntries env (zipEntry # entries) attachmentMap st
            = extractEntries env entries ?m st3"
        using skip Some c t by (simp add: Let_def)
      show ?thesis
        unfolding eq by (rule keepsSearchView_cong [OF Cons.IH v3])
    qed
  qed
qed

lemma searchView_loadSavedChats: "searchView (loadSavedChats env st) = searchView st"
  by (simp add: loadSavedChats_def getAllChats_def searchView_def)

lemma search_installSession:
  "searchResults (installSession env file fileName chatId chatName parsed st) = searchResults st
   \<and> currentSearchIndex (installSession env file fileName chatId chatName parsed st)
       = currentSearchIndex st"
  using searchView_loadSavedChats [where env = env]
  by (simp add: installSession_def Let_def saveChat_def loadFailed_def searchView_def)

lemma search_processZipFile:
  "searchResults (processZipFile env file fileName chatId chatName st) = []
   \<and> currentSearchIndex (processZipFile env file fileName chatId chatName st) = - 1"
proof -
  let ?st0 = "st\<lparr>loading := True, searchTerm := [], searchResults := [],
                  currentSearchIndex := - 1\<rparr>"
  have r: "searchResults (revokeBlobUrls ?st0) = []
           \<and> currentSearchIndex (revokeBlobUrls ?st0) = - 1"
    using searchView_revokeBlobUrls [of ?st0] by (simp add: searchView_def)
  show ?thesis
  proof (cases "file")
    case NotAZip
    then show ?thesis by (simp add: processZipFile_def loadFailed_def)
  next
    case (Zip files)
    show ?thesis
    proof (cases "find (\<lambda>e. entryName e = ''_chat.txt'' \<and> \<not> dir e) files")
      case None
      with Zip show ?thesis by (simp add: processZipFile_def)
    next
      case (Some chatFile)
      show ?thesis
      proof (cases "extractEntries env files Map.empty (revokeBlobUrls ?st0)")
        case (Inl st1)
        with searchView_extractEntries
               [where env = env and entries = files and attachmentMap = Map.empty
                  and st = "revokeBlobUrls ?st0"] r
        have "searchResults st1 = [] \<and> currentSearchIndex st1 = - 1"
          by (simp add: searchView_def keepsSearchView_def)
        with Zip Some Inl show ?thesis
          by (simp add: processZipFile_def loadFailed_def)
      next
        case (Inr p)
        obtain attachmentMap st1 where p: "p = (attachmentMap, st1)" by (cases p)
        with Inr searchView_extractEntries
                   [where env = env and entries = files and attachmentMap = Map.empty
                      and st = "revokeBlobUrls ?st0"] r
        have s1: "searchResults st1 = [] \<and> currentSearchIndex st1 = - 1"
          by (simp add: searchView_def keepsSearchView_def)
        show ?thesis
        proof (cases "asString chatFile")
          case None
          with Zip Some Inr p s1 show ?thesis
            by (simp add: processZipFile_def loadFailed_def)
        next
          case (Some t)
          with Zip \<open>find _ files = Some chatFile\<close> Inr p s1 show ?thesis
            by (simp add: processZipFile_def search_installSession)
        qed
      qed
    qed
  qed
qed

lemma cursorValid_perform: "cursorValid st \<Longrightarrow> cursorValid (perform op st)"
proof (cases op)
  case PerformSearch
  show ?thesis
    by (auto simp: PerformSearch cursorValid_def performSearch_def Let_def)
next
  case NextSearchResult
  assume v: "cursorValid st"
  show ?thesis
  proof (cases "searchResults st = []")
    case True
    with v show ?thesis by (simp add: NextSearchResult nextSearchResult_def)
  next
    case False
    let ?n = "int (length (searchResults st))"
    from False have n: "0 < ?n" by simp
    from v False have c: "0 \<le> currentSearchIndex st" by (simp add: cursorValid_def)
    define x where "x = (currentSearchIndex st + 1) mod ?n"
    from c n have "remainder (currentSearchIndex st + 1) ?n = x"
      unfolding x_def by (intro remainder_nonneg) linarith+
    with False have e: "nextSearchResult st = st\<lparr>currentSearchIndex := x\<rparr>"
      by (simp add: nextSearchResult_def Let_def)
    have "0 \<le> x" "x < ?n"
      unfolding x_def using n by (rule pos_mod_sign, rule pos_mod_bound)
    with v False show ?thesis
      unfolding NextSearchResult perform.simps e by (auto simp: cursorValid_def)
  qed
next
  case PrevSearchResult
  assume v: "cursorValid st"
  show ?thesis
  proof (cases "searchResults st = []")
    case True
    with v show ?thesis by (simp add: PrevSearchResult prevSearchResult_def)
  next
    case False
    let ?n = "int (length (searchResults st))"
    from False have n: "0 < ?n" by simp
    from v False have c: "0 \<le> currentSearchIndex st" by (simp add: cursorValid_def)
    define x where "x = (currentSearchIndex st - 1 + ?n) mod ?n"
    from c n have "remainder (currentSearchIndex st - 1 + ?n) ?n = x"
      unfolding x_def by (intro remainder_nonneg) linarith+
    with False have e: "prevSearchResult st = st\<lparr>currentSearchIndex := x\<rparr>"
      by (simp add: prevSearchResult_def Let_def)
    have "0 \<le> x" "x < ?n"
      unfolding x_def using n by (rule pos_mod_sign, rule pos_mod_bound)
    with v False show ?thesis
      unfolding PrevSearchResult perform.simps e by (auto simp: cursorValid_def)
  qed
next
  case (SetSearchTerm t)
  assume "cursorValid st"
  then show ?thesis by (simp add: SetSearchTerm setSearchTerm_def cursorValid_def)
next
  case (ProcessZipFile env zip fileName chatId chatName)
  then show ?thesis by (simp add: cursorValid_def search_processZipFile)
next
  case HandleBackToHome
  let ?st0 = "st\<lparr>allMessages := [], currentChatId := [], currentChatName := [],
                  currentUser := [], allSenders := [], searchTerm := [], searchResults := [],
                  currentSearchIndex := - 1, showMediaPanel := False\<rparr>"
  from searchView_revokeBlobUrls [of ?st0] show ?thesis
    by (simp add: HandleBackToHome handleBackToHome_def cursorValid_def searchView_def)
qed

subsection \<open>Operations while a load is awaiting\<close>

text \<open>
  \<open>processZipFile\<close> is an \<open>async\<close> function. A call runs lines 372 to 375 and gives the
  control back at \<open>await zip.loadAsync(file)\<close>; what follows the \<open>await\<close> runs later, on the
  state that the page then has, and until then the page reacts to the user. The two halves
  of a load are kept apart here, so that other operations can come between them.
\<close>

definition processZipFileCalled :: "State \<Rightarrow> State" where
  "processZipFileCalled st =
     st\<lparr>loading := True, searchTerm := [], searchResults := [], currentSearchIndex := - 1\<rparr>"

definition processZipFileResumed ::
  "Env \<Rightarrow> ZipBlob \<Rightarrow> string \<Rightarrow> string option \<Rightarrow> string option \<Rightarrow> State \<Rightarrow> State"
where
  "processZipFileResumed env file fileName chatId chatName st0 =
     (case file of
        NotAZip \<Rightarrow> loadFailed st0
      | Zip files \<Rightarrow>
          (case find (\<lambda>e. entryName e = ''_chat.txt'' \<and> \<not> dir e) files of
             None \<Rightarrow>
               st0\<lparr>alerts := alerts st0 @ [''No _chat.txt file found in zip!''],
                   loading := False\<rparr>
           | Some chatFile \<Rightarrow>
               (case extractEntries env files Map.empty (revokeBlobUrls st0) of
                  Inl st1 \<Rightarrow> loadFailed st1
                | Inr (attachmentMap, st1) \<Rightarrow>
                    (case asString chatFile of
                       None \<Rightarrow> loadFailed st1
                     | Some txt \<Rightarrow>
                         installSession env file fileName chatId chatName
                           (parseMessages txt attachmentMap) st1))))"

text \<open>A load that nothing interrupts is the one half followed by the other.\<close>

lemma processZipFile_split:
  "processZipFile env file fileName chatId chatName st
   = processZipFileResumed env file fileName chatId chatName (processZipFileCalled st)"
  by (simp add: processZipFile_def processZipFileResumed_def processZipFileCalled_def Let_def)

text \<open>
  What can happen on the page, one thing after the other: an operation that runs from its
  beginning to its end, the call of a load, or the part of a load behind its first \<open>await\<close>.
\<close>

datatype Event =
    Whole Operation
  | LoadCalled
  | LoadResumed Env ZipBlob string "string option" "string option"

fun occur :: "Event \<Rightarrow> State \<Rightarrow> State" where
  "occur (Whole operation) st = perform operation st"
| "occur LoadCalled st = processZipFileCalled st"
| "occur (LoadResumed env file fileName chatId chatName) st =
     processZipFileResumed env file fileName chatId chatName st"

definition runEvents :: "Event list \<Rightarrow> State \<Rightarrow> State" where
  "runEvents events st = fold occur events st"

lemma runEvents_Whole: "runEvents (map Whole ops) st = run ops st"
  unfolding runEvents_def run_def by (induction ops arbitrary: st) simp_all

text \<open>The cursor is \<open>-1\<close> exactly when there are no results and otherwise points at one.\<close>

definition cursorInRange :: "State \<Rightarrow> bool" where
  "cursorInRange st =
     ((currentSearchIndex st = - 1) = (searchResults st = [])
      \<and> (searchResults st \<noteq> [] \<longrightarrow>
           0 \<le> currentSearchIndex st
           \<and> currentSearchIndex st < int (length (searchResults st))))"

lemma search_processZipFileResumed:
  "searchResults (processZipFileResumed env file fileName chatId chatName st) = searchResults st
   \<and> currentSearchIndex (processZipFileResumed env file fileName chatId chatName st)
       = currentSearchIndex st"
proof (cases "file")
  case NotAZip
  then show ?thesis by (simp add: processZipFileResumed_def loadFailed_def)
next
  case (Zip files)
  have r: "searchView (revokeBlobUrls st) = searchView st"
    by (rule searchView_revokeBlobUrls)
  show ?thesis
  proof (cases "find (\<lambda>e. entryName e = ''_chat.txt'' \<and> \<not> dir e) files")
    case None
    with Zip show ?thesis by (simp add: processZipFileResumed_def)
  next
    case (Some chatFile)
    note k = searchView_extractEntries
               [where env = env and entries = files and attachmentMap = Map.empty
                  and st = "revokeBlobUrls st"]
    show ?thesis
    proof (cases "extractEntries env files Map.empty (revokeBlobUrls st)")
      case (Inl st1)
      with k r have "searchView st1 = searchView st"
        by (simp add: keepsSearchView_def)
      with Zip Some Inl show ?thesis
        by (simp add: processZipFileResumed_def loadFailed_def searchView_def)
    next
      case (Inr p)
      obtain attachmentMap st1 where p: "p = (attachmentMap, st1)" by (cases p)
      with Inr k r have s1: "searchView st1 = searchView st"
        by (simp add: keepsSearchView_def)
      show ?thesis
      proof (cases "asString chatFile")
        case None
        with Zip Some Inr p s1 show ?thesis
          by (simp add: processZipFileResumed_def loadFailed_def searchView_def)
      next
        case (Some t)
        with Zip \<open>find _ files = Some chatFile\<close> Inr p s1 show ?thesis
          by (simp add: processZipFileResumed_def search_installSession searchView_def)
      qed
    qed
  qed
qed

lemma cursorInRange_search:
  "cursorInRange (performSearch st)"
  "cursorInRange st \<Longrightarrow> cursorInRange (nextSearchResult st)"
  "cursorInRange st \<Longrightarrow> cursorInRange (prevSearchResult st)"
proof -
  show "cursorInRange (performSearch st)"
    by (auto simp: cursorInRange_def performSearch_def Let_def)
next
  assume v: "cursorInRange st"
  show "cursorInRange (nextSearchResult st)"
  proof (cases "searchResults st = []")
    case True
    with v show ?thesis by (simp add: nextSearchResult_def)
  next
    case False
    let ?n = "int (length (searchResults st))"
    from False have n: "0 < ?n" by simp
    from v False have c: "0 \<le> currentSearchIndex st" by (simp add: cursorInRange_def)
    define x where "x = (currentSearchIndex st + 1) mod ?n"
    from c n have "remainder (currentSearchIndex st + 1) ?n = x"
      unfolding x_def by (intro remainder_nonneg) linarith+
    with False have e: "nextSearchResult st = st\<lparr>currentSearchIndex := x\<rparr>"
      by (simp add: nextSearchResult_def Let_def)
    have "0 \<le> x" "x < ?n"
      unfolding x_def using n by (rule pos_mod_sign, rule pos_mod_bound)
    with False show ?thesis
      unfolding e by (auto simp: cursorInRange_def)
  qed
next
  assume v: "cursorInRange st"
  show "cursorInRange (prevSearchResult st)"
  proof (cases "searchResults st = []")
    case True
    with v show ?thesis by (simp add: prevSearchResult_def)
  next
    case False
    let ?n = "int (length (searchResults st))"
    from False have n: "0 < ?n" by simp
    from v False have c: "0 \<le> currentSearchIndex st" by (simp add: cursorInRange_def)
    define x where "x = (currentSearchIndex st - 1 + ?n) mod ?n"
    from c n have "remainder (currentSearchIndex st - 1 + ?n) ?n = x"
      unfolding x_def by (intro remainder_nonneg) linarith+
    with False have e: "prevSearchResult st = st\<lparr>currentSearchIndex := x\<rparr>"
      by (simp add: prevSearchResult_def Let_def)
    have "0 \<le> x" "x < ?n"
      unfolding x_def using n by (rule pos_mod_sign, rule pos_mod_bound)
    with False show ?thesis
      unfolding e by (auto simp: cursorInRange_def)
  qed
qed

lemma cursorInRange_perform: "cursorInRange st \<Longrightarrow> cursorInRange (perform op st)"
proof (cases op)
  case (SetSearchTerm t)
  assume "cursorInRange st"
  then show ?thesis by (simp add: SetSearchTerm setSearchTerm_def cursorInRange_def)
next
  case (ProcessZipFile env zip fileName chatId chatName)
  then show ?thesis by (simp add: cursorInRange_def search_processZipFile)
next
  case HandleBackToHome
  let ?st0 = "st\<lparr>allMessages := [], currentChatId := [], currentChatName := [],
                  currentUser := [], allSenders := [], searchTerm := [], searchResults := [],
                  currentSearchIndex := - 1, showMediaPanel := False\<rparr>"
  from searchView_revokeBlobUrls [of ?st0] show ?thesis
    by (simp add: HandleBackToHome handleBackToHome_def cursorInRange_def searchView_def)
qed (simp_all add: cursorInRange_search)

lemma cursorInRange_occur: "cursorInRange st \<Longrightarrow> cursorInRange (occur event st)"
proof (cases event)
  case (Whole operation)
  assume "cursorInRange st"
  then show ?thesis by (simp add: Whole cursorInRange_perform)
next
  case LoadCalled
  show ?thesis by (simp add: LoadCalled processZipFileCalled_def cursorInRange_def)
next
  case (LoadResumed env zip fileName chatId chatName)
  assume "cursorInRange st"
  then show ?thesis
    by (simp add: LoadResumed cursorInRange_def search_processZipFileResumed)
qed

text \<open>
  C10 (as the code has it). From the initial state, after any sequence of \<open>performSearch\<close>,
  \<open>nextSearchResult\<close>, \<open>prevSearchResult\<close>, \<open>processZipFile\<close> and \<open>handleBackToHome\<close> (and of
  typing into the search box), also when other operations come between the call of a load
  and what the load does behind its first \<open>await\<close>, the cursor is \<open>-1\<close> if and only if there
  are no search results, and otherwise it satisfies
  \<open>0 \<le> currentSearchIndex < searchResults.length\<close>. When every operation, a load in
  particular, runs from its beginning to its end before the next one begins, the
  highlighted result is moreover the index of a message of the current list.
\<close>

theorem search_cursor_invariant:
  "((currentSearchIndex (runEvents events initialState) = - 1)
      = (searchResults (runEvents events initialState) = [])
    \<and> (searchResults (runEvents events initialState) \<noteq> [] \<longrightarrow>
         0 \<le> currentSearchIndex (runEvents events initialState)
         \<and> currentSearchIndex (runEvents events initialState)
             < int (length (searchResults (runEvents events initialState)))))
   \<and> ((currentSearchIndex (run ops initialState) = - 1)
         = (searchResults (run ops initialState) = [])
       \<and> (searchResults (run ops initialState) \<noteq> [] \<longrightarrow>
            0 \<le> currentSearchIndex (run ops initialState)
            \<and> currentSearchIndex (run ops initialState)
                < int (length (searchResults (run ops initialState)))
            \<and> searchResults (run ops initialState)
                 ! nat (currentSearchIndex (run ops initialState))
                < length (allMessages (run ops initialState))))"
proof -
  have "cursorValid st \<Longrightarrow> cursorValid (fold perform ops st)" for st
    by (induction ops arbitrary: st) (simp_all add: cursorValid_perform)
  moreover have "cursorValid initialState"
    by (simp add: cursorValid_def initialState_def)
  ultimately have whole: "cursorValid (run ops initialState)"
    by (simp add: run_def)
  have "cursorInRange st \<Longrightarrow> cursorInRange (fold occur events st)" for st
    by (induction events arbitrary: st) (simp_all add: cursorInRange_occur)
  moreover have "cursorInRange initialState"
    by (simp add: cursorInRange_def initialState_def)
  ultimately have "cursorInRange (runEvents events initialState)"
    by (simp add: runEvents_def)
  with whole show ?thesis
    unfolding cursorInRange_def by (auto simp: cursorValid_def)
qed


subsection \<open>An example session\<close>

text \<open>
  An archive with a transcript of two messages, the first of which refers to the picture
  that comes with it, and the operations of a user who loads it and searches for \<open>alice\<close>.
\<close>

definition exampleChatText :: string where
  "exampleChatText =
     ''[1/1/24, 10:00] Alice: <attached: photo.jpg>'' @ [CHR 0x0A]
     @ ''[1/1/24, 10:01] Bob: Nice one, Alice''"

definition exampleArchive :: ZipBlob where
  "exampleArchive =
     Zip [\<lparr>entryName = ''_chat.txt'', dir = False,
           asBlob = Some \<lparr>byteSize = 85, picture = None, playable = False\<rparr>,
           asString = Some exampleChatText\<rparr>,
          \<lparr>entryName = ''photo.jpg'', dir = False,
           asBlob = Some \<lparr>byteSize = 1024, picture = Some (400, 300), playable = False\<rparr>,
           asString = None\<rparr>]"

definition sessionLoaded :: State where
  "sessionLoaded =
     processZipFile workingEnv exampleArchive ''WhatsApp Chat - Alice.zip'' None None
       initialState"

definition exampleOperations :: "Operation list" where
  "exampleOperations =
     [ProcessZipFile workingEnv exampleArchive ''WhatsApp Chat - Alice.zip'' None None,
      SetSearchTerm ''alice'', PerformSearch, NextSearchResult]"


lemma decimal_example: "decimal 1704103200000 = ''1704103200000''"
  by (simp add: decimal.simps)

lemma extractChatName_example: "extractChatName ''WhatsApp Chat - Alice.zip'' = ''Alice''"
  by code_simp

lemma getAttachmentType_example:
  "getAttachmentType ''photo.jpg'' = image \<and> getAttachmentType ''clip.mp4'' = video"
  by code_simp

definition examplePhoto :: Attachment where
  "examplePhoto =
     \<lparr>name = ''photo.jpg'', type = image, blobUrl = 0, size = 1024, thumbnailUrl = Some 2\<rparr>"

definition exampleMessages :: "Message list" where
  "exampleMessages =
     [\<lparr>date = ''1/1/24'', time = ''10:00'', sender = ''Alice'', text = [],
       attachment = Some examplePhoto\<rparr>,
      \<lparr>date = ''1/1/24'', time = ''10:01'', sender = ''Bob'', text = ''Nice one, Alice'',
       attachment = None\<rparr>]"

lemma parseMessages_example:
  "parseMessages exampleChatText [''photo.jpg'' \<mapsto> examplePhoto] = exampleMessages"
  by code_simp

lemma trim_senders: "trim ''Alice'' = ''Alice'' \<and> trim ''Bob'' = ''Bob''"
  by code_simp

text \<open>
  The example archive loads: both messages are installed, the first with the picture under
  the object URL \<open>0\<close> and its thumbnail under \<open>2\<close> (URL \<open>1\<close> was the temporary one of the
  thumbnail generator), and both URLs are alive.
\<close>

lemma sessionLoaded_session:
  "allMessages sessionLoaded = exampleMessages
   \<and> blobUrls sessionLoaded = [0, 2]
   \<and> liveUrls sessionLoaded = {0, 2}
   \<and> alerts sessionLoaded = []
   \<and> searchResults sessionLoaded = []
   \<and> currentSearchIndex sessionLoaded = - 1
   \<and> currentChatName sessionLoaded = ''Alice''"
  unfolding sessionLoaded_def processZipFile_def exampleArchive_def
  by (simp add: initialState_def workingEnv_def revokeBlobUrls_def getAttachmentType_example
        createObjectURL_def revokeObjectURL_def generateThumbnail_def thumbnailSize_example
        toUnsignedLong_example
        installSession_def Let_def distinctInOrder_def trim_senders
        decimal_example extractChatName_example saveChat_def loadSavedChats_def
        getAllChats_def storeGetAll_def
        parseMessages_example [unfolded examplePhoto_def] exampleMessages_def examplePhoto_def
        insert_commute numeral_2_eq_2 [symmetric] del: One_nat_def)


lemma search_alice:
  "trim ''alice'' \<noteq> []
   \<and> filter (\<lambda>index. messageMatches ''alice'' (exampleMessages ! index))
        [0 ..< length exampleMessages] = [0, 1]"
  by code_simp

lemma exampleOperations_results:
  "searchResults (run exampleOperations initialState) = [0, 1]"
proof -
  let ?st = "setSearchTerm ''alice'' sessionLoaded"
  have "run exampleOperations initialState = nextSearchResult (performSearch ?st)"
    by (simp add: run_def exampleOperations_def sessionLoaded_def)
  moreover have "searchResults (nextSearchResult st) = searchResults st" for st
    by (simp add: nextSearchResult_def Let_def)
  moreover have "searchResults (performSearch ?st) = [0, 1]"
    using search_alice sessionLoaded_session
    by (simp add: performSearch_def setSearchTerm_def Let_def)
  ultimately show ?thesis by simp
qed

text \<open>
  A second load that is overtaken by a search. While the example session is on screen a
  load of a transcript of one message is called; before the load goes on behind its first
  \<open>await\<close>, the user searches for \<open>bob\<close>, which finds the second message of the session on
  screen. The load then installs its one message and leaves the search as it is.
\<close>

definition shortChatText :: string where
  "shortChatText = ''[2/1/24, 09:00] Bob: Hello''"

definition shortArchive :: ZipBlob where
  "shortArchive =
     Zip [\<lparr>entryName = ''_chat.txt'', dir = False,
           asBlob = Some \<lparr>byteSize = 26, picture = None, playable = False\<rparr>,
           asString = Some shortChatText\<rparr>]"

definition overtakenLoad :: "Event list" where
  "overtakenLoad =
     [Whole (ProcessZipFile workingEnv exampleArchive ''WhatsApp Chat - Alice.zip'' None None),
      LoadCalled,
      Whole (SetSearchTerm ''bob''),
      Whole PerformSearch,
      LoadResumed workingEnv shortArchive ''WhatsApp Chat - Bob.zip'' None None]"

lemma allMessages_installSession:
  "allMessages (installSession env file fileName chatId chatName parsed st) = parsed"
  by (simp add: installSession_def Let_def saveChat_def loadSavedChats_def getAllChats_def
                loadFailed_def)

lemma parseMessages_short: "length (parseMessages shortChatText Map.empty) = 1"
  by code_simp

lemma search_bob:
  "trim ''bob'' \<noteq> []
   \<and> filter (\<lambda>index. messageMatches ''bob'' (exampleMessages ! index))
        [0 ..< length exampleMessages] = [1]"
  by code_simp

lemma overtakenLoad_results:
  "searchResults (runEvents overtakenLoad initialState) = [1]
   \<and> length (allMessages (runEvents overtakenLoad initialState)) = 1"
proof -
  let ?searched = "performSearch (setSearchTerm ''bob'' (processZipFileCalled sessionLoaded))"
  let ?final = "processZipFileResumed workingEnv shortArchive ''WhatsApp Chat - Bob.zip''
                  None None ?searched"
  have e: "runEvents overtakenLoad initialState = ?final"
    by (simp add: runEvents_def overtakenLoad_def sessionLoaded_def)
  have "searchResults ?searched = [1]"
    using search_bob sessionLoaded_session
    by (simp add: performSearch_def setSearchTerm_def processZipFileCalled_def Let_def)
  then have "searchResults ?final = [1]"
    by (simp only: search_processZipFileResumed)
  moreover have "allMessages ?final = parseMessages shortChatText Map.empty"
    by (simp add: processZipFileResumed_def shortArchive_def allMessages_installSession)
  ultimately show ?thesis
    by (simp only: e parseMessages_short)
qed

theorem search_cursor_invariant_witness:
  "searchResults (run exampleOperations initialState) \<noteq> []
   \<and> currentSearchIndex (run exampleOperations initialState) \<noteq> - 1
   \<and> 0 \<le> currentSearchIndex (run exampleOperations initialState)
   \<and> currentSearchIndex (run exampleOperations initialState) < 2
   \<and> searchResults (run exampleOperations initialState)
        ! nat (currentSearchIndex (run exampleOperations initialState))
       < length (allMessages (run exampleOperations initialState))
   \<and> searchResults (runEvents overtakenLoad initialState) \<noteq> []
   \<and> currentSearchIndex (runEvents overtakenLoad initialState) = 0"
  using search_cursor_invariant [where ops = exampleOperations and events = overtakenLoad]
        exampleOperations_results overtakenLoad_results
  by simp

text \<open>
  The claim as the specification states it, without a condition on when the operations
  run, fails for the load that a search overtakes: the search is active, its cursor is in
  range, and the highlighted result is the index \<open>1\<close> in a list that has one message.
\<close>

theorem search_cursor_overtaken_load_counterexample:
  "searchResults (runEvents overtakenLoad initialState) \<noteq> []
   \<and> 0 \<le> currentSearchIndex (runEvents overtakenLoad initialState)
   \<and> currentSearchIndex (runEvents overtakenLoad initialState)
       < int (length (searchResults (runEvents overtakenLoad initialState)))
   \<and> searchResults (runEvents overtakenLoad initialState)
        ! nat (currentSearchIndex (runEvents overtakenLoad initialState)) = 1
   \<and> length (allMessages (runEvents overtakenLoad initialState)) = 1
   \<and> \<not> searchResults (runEvents overtakenLoad initialState)
          ! nat (currentSearchIndex (runEvents overtakenLoad initialState))
        < length (allMessages (runEvents overtakenLoad initialState))"
proof -
  have "cursorInRange st \<Longrightarrow> cursorInRange (fold occur events st)" for events st
    by (induction events arbitrary: st) (simp_all add: cursorInRange_occur)
  moreover have "cursorInRange initialState"
    by (simp add: cursorInRange_def initialState_def)
  ultimately have "cursorInRange (runEvents overtakenLoad initialState)"
    by (simp add: runEvents_def)
  with overtakenLoad_results show ?thesis
    by (simp add: cursorInRange_def)
qed

section \<open>A load that fails\<close>

text \<open>
  The two ways in which \<open>processZipFile\<close> gives up before it touches the session: the file
  is not a zip, or it has no \<open>_chat.txt\<close>. The messages, the \<open>blobUrls\<close> list and the object
  URLs that are alive stay as they were.
\<close>

lemma processZipFile_rejected_before_extraction:
  assumes "archive = NotAZip
           \<or> (\<exists>files. archive = Zip files
                \<and> find (\<lambda>e. entryName e = ''_chat.txt'' \<and> \<not> dir e) files = None)"
  shows "allMessages (processZipFile env archive fileName chatId chatName st) = allMessages st
         \<and> blobUrls (processZipFile env archive fileName chatId chatName st) = blobUrls st
         \<and> liveUrls (processZipFile env archive fileName chatId chatName st) = liveUrls st
         \<and> alerts (processZipFile env archive fileName chatId chatName st) \<noteq> alerts st"
  using assms by (auto simp: processZipFile_def loadFailed_def)

text \<open>
  A second archive whose transcript is fine but whose video entry is damaged, so that
  \<open>zipEntry.async('blob')\<close> rejects; it is opened while the example session is on screen.
\<close>

definition damagedArchive :: ZipBlob where
  "damagedArchive =
     Zip [\<lparr>entryName = ''_chat.txt'', dir = False,
           asBlob = Some \<lparr>byteSize = 40, picture = None, playable = False\<rparr>,
           asString = Some ''[2/1/24, 09:00] Bob: <attached: clip.mp4>''\<rparr>,
          \<lparr>entryName = ''clip.mp4'', dir = False, asBlob = None, asString = None\<rparr>]"

definition afterFailedLoad :: State where
  "afterFailedLoad =
     processZipFile workingEnv damagedArchive ''WhatsApp Chat - Bob.zip'' None None
       sessionLoaded"

text \<open>
  C2 (what the code does). The load fails with the alert of the \<open>catch\<close> block, and the
  messages of the session that was on screen are still installed; but the object URLs of
  that session were revoked before the extraction began, so the picture of the first
  message now points at a URL that is no longer alive. The prior session is not left
  untouched.
\<close>

theorem processZipFile_failed_extraction_revokes_prior_session:
  "alerts afterFailedLoad = [''Error loading chat file'']
   \<and> allMessages afterFailedLoad = allMessages sessionLoaded
   \<and> map (\<lambda>m. map_option blobUrl (attachment m)) (allMessages afterFailedLoad) = [Some 0, None]
   \<and> 0 \<in> liveUrls sessionLoaded
   \<and> 0 \<notin> liveUrls afterFailedLoad
   \<and> blobUrls afterFailedLoad = []"
  unfolding afterFailedLoad_def processZipFile_def damagedArchive_def
  using sessionLoaded_session
  by (simp add: revokeBlobUrls_def revokeObjectURL_def loadFailed_def exampleMessages_def
                examplePhoto_def)


end
